theory Spec2Isabelle
  imports Complex_Main
begin

section \<open>Python values used by the download entry point\<close>

text \<open>
  A Python float: a finite value, an infinity or NaN. Comparisons with NaN are false.
\<close>

datatype pyfloat = Finite real | PosInf | NegInf | NaN

fun float_gt :: "pyfloat \<Rightarrow> pyfloat \<Rightarrow> bool" where
  "float_gt NaN b = False"
| "float_gt a NaN = False"
| "float_gt (Finite a) (Finite b) = (b < a)"
| "float_gt (Finite a) PosInf = False"
| "float_gt (Finite a) NegInf = True"
| "float_gt PosInf PosInf = False"
| "float_gt PosInf b = True"
| "float_gt NegInf b = False"

text \<open>
  The values a caller can pass for \<open>start_chapter\<close> and \<open>end_chapter\<close>: \<open>None\<close>, a float,
  or a value of another type (an int or a str stand for those).
\<close>

datatype pyval = PNone | PFloat pyfloat | PInt int | PStr string

datatype error =
    ValueError string
  | TypeError string
  | InvalidURL
  | InvalidManga
  | ChapterNotFound
  | UnboundLocalError string
  | UpstreamUnavailable
  | OtherError string

fun isinstance_float :: "pyval \<Rightarrow> bool" where
  "isinstance_float (PFloat x) = True"
| "isinstance_float v = False"

fun str_gt :: "string \<Rightarrow> string \<Rightarrow> bool" where
  "str_gt [] b = False"
| "str_gt (c # cs) [] = True"
| "str_gt (c # cs) (d # ds) = (if c = d then str_gt cs ds else (of_char d :: nat) < of_char c)"

text \<open>
  Python 3's \<open>a > b\<close>: numbers compare by value, strings lexicographically, and every
  comparison involving \<open>None\<close> (or a number with a string) raises \<open>TypeError\<close>.
\<close>

fun py_gt :: "pyval \<Rightarrow> pyval \<Rightarrow> error + bool" where
  "py_gt (PFloat a) (PFloat b) = Inr (float_gt a b)"
| "py_gt (PFloat a) (PInt b) = Inr (float_gt a (Finite (of_int b)))"
| "py_gt (PInt a) (PFloat b) = Inr (float_gt (Finite (of_int a)) b)"
| "py_gt (PInt a) (PInt b) = Inr (b < a)"
| "py_gt (PStr a) (PStr b) = Inr (str_gt a b)"
| "py_gt a b = Inl (TypeError ''> not supported between these instances'')"

text \<open>The \<open>language\<close> argument: a member of the \<open>Language\<close> enum (with its value), a str, or
  something else.\<close>

datatype language_arg = LangEnum string | LangStr string | LangOther

section \<open>The world: file system, upstream clock and event trace\<close>

text \<open>A path is its list of components below the working directory \<open>Path('.')\<close>.\<close>

type_synonym path = "string list"

datatype event =
    NetCall string string
  | FetchImages string
  | Mkdir path
  | Transfer string path bool
  | Skip path
  | WriteFile path

record world =
  fs :: "path set"
  clock :: nat
  trace :: "event list"

fun is_network :: "event \<Rightarrow> bool" where
  "is_network (NetCall f a) = True"
| "is_network (FetchImages c) = True"
| "is_network (Transfer u p b) = True"
| "is_network e = False"

fun is_fs_output :: "event \<Rightarrow> bool" where
  "is_fs_output (Mkdir p) = True"
| "is_fs_output (Transfer u p b) = b"
| "is_fs_output (WriteFile p) = True"
| "is_fs_output e = False"

definition emit :: "event \<Rightarrow> world \<Rightarrow> world" where
  "emit e w = w\<lparr>trace := trace w @ [e]\<rparr>"

definition net_call :: "string \<Rightarrow> string \<Rightarrow> world \<Rightarrow> world" where
  "net_call f a w = w\<lparr>clock := Suc (clock w), trace := trace w @ [NetCall f a]\<rparr>"

section \<open>Data model\<close>

text \<open>A volume label as the chapter iterator yields it: an int, or a str such as \<open>"none"\<close>.
  The chapter label is a str.\<close>

datatype vol_label = VolInt int | VolStr string

text \<open>A page of a chapter: page number, image URL, image file name.\<close>

type_synonym page = "nat \<times> string \<times> string"

text \<open>A \<open>ChapterImages\<close> object is identified by its chapter id and its data-saver flag.\<close>

type_synonym images = "string \<times> bool"

record relationship =
  rel_type :: string
  rel_id :: string

record manga_data =
  md_id :: string
  md_relationships :: "relationship list"
  md_cover_art :: "string option"
  md_authors :: "string list"
  md_artists :: "string list"

record manga =
  manga_id :: string
  title :: string
  cover_art :: string
  cover_art_512px :: string
  cover_art_256px :: string
  chapters :: "(vol_label \<times> string \<times> string) list"

text \<open>
  The collaborators of \<open>main.py\<close> that live in other modules (\<open>utils\<close>, \<open>fetcher\<close>, \<open>manga\<close>,
  \<open>chapter\<close>, \<open>downloader\<close>, \<open>pathvalidate\<close>) are parameters of the model. The metadata
  endpoints answer as functions of their arguments; the page lists served for a chapter
  and the outcome of a transfer may change with the upstream clock, which ticks at every
  network call.
\<close>

record env =
  valid_cover_types :: "string list"
  get_language :: "string \<Rightarrow> error + string"
  validate_url :: "string \<Rightarrow> error + string"
  get_manga :: "string \<Rightarrow> error + manga_data"
  get_author :: "string \<Rightarrow> error + string"
  get_cover_art :: "string \<Rightarrow> error + string"
  Manga :: "manga_data \<Rightarrow> manga"
  get_all_chapters :: "string \<Rightarrow> string \<Rightarrow> error + (vol_label \<times> string \<times> string) list"
  sanitize_filename :: "string \<Rightarrow> string"
  iter_chapter_images ::
    "(vol_label \<times> string \<times> string) list \<Rightarrow> pyval \<Rightarrow> pyval \<Rightarrow> bool \<Rightarrow> bool
      \<Rightarrow> (vol_label \<times> string \<times> images) list"
  chapter_pages :: "nat \<Rightarrow> images \<Rightarrow> error + page list"
  net_ok :: "nat \<Rightarrow> string \<Rightarrow> bool"

record download_args =
  arg_url :: string
  arg_folder :: "string option"
  arg_replace :: bool
  arg_compressed_image :: bool
  arg_start_chapter :: pyval
  arg_end_chapter :: pyval
  arg_no_oneshot_chapter :: bool
  arg_language :: language_arg
  arg_cover :: string

section \<open>fetch (main.py, lines 55-128)\<close>

definition parse_language :: "env \<Rightarrow> language_arg \<Rightarrow> error + string" where
  "parse_language E language =
     (case language of
        LangEnum v \<Rightarrow> Inr v
      | LangStr s \<Rightarrow> get_language E s
      | LangOther \<Rightarrow> Inl (ValueError ''language must be Language or str''))"

text \<open>The loop over \<open>data['data']['relationships']\<close>, lines 98-112.\<close>

fun fetch_rels ::
  "env \<Rightarrow> relationship list \<Rightarrow> manga_data \<Rightarrow> world \<Rightarrow> (error + manga_data) \<times> world" where
  "fetch_rels E [] d w = (Inr d, w)"
| "fetch_rels E (r # rs) d w =
     (if rel_type r = ''author'' then
        (case get_author E (rel_id r) of
           Inl e \<Rightarrow> (Inl e, net_call ''get_author'' (rel_id r) w)
         | Inr a \<Rightarrow> fetch_rels E rs (d\<lparr>md_authors := md_authors d @ [a]\<rparr>)
                     (net_call ''get_author'' (rel_id r) w))
      else if rel_type r = ''artist'' then
        (case get_author E (rel_id r) of
           Inl e \<Rightarrow> (Inl e, net_call ''get_author'' (rel_id r) w)
         | Inr a \<Rightarrow> fetch_rels E rs (d\<lparr>md_artists := md_artists d @ [a]\<rparr>)
                     (net_call ''get_author'' (rel_id r) w))
      else if rel_type r = ''cover_art'' then
        (case get_cover_art E (rel_id r) of
           Inl e \<Rightarrow> (Inl e, net_call ''get_cover_art'' (rel_id r) w)
         | Inr c \<Rightarrow> fetch_rels E rs (d\<lparr>md_cover_art := Some c\<rparr>)
                     (net_call ''get_cover_art'' (rel_id r) w))
      else fetch_rels E rs d w)"

definition fetch :: "env \<Rightarrow> string \<Rightarrow> language_arg \<Rightarrow> world \<Rightarrow> (error + manga) \<times> world" where
  "fetch E url language w =
     (case parse_language E language of
        Inl e \<Rightarrow> (Inl e, w)
      | Inr lang \<Rightarrow>
     (case validate_url E url of
        Inl e \<Rightarrow> (Inl e, w)
      | Inr mid \<Rightarrow>
     (case get_manga E mid of
        Inl e \<Rightarrow> (Inl e, net_call ''get_manga'' mid w)
      | Inr data \<Rightarrow>
     (case fetch_rels E (md_relationships data) (data\<lparr>md_authors := [], md_artists := []\<rparr>)
             (net_call ''get_manga'' mid w) of
        (Inl e, w1) \<Rightarrow> (Inl e, w1)
      | (Inr data1, w1) \<Rightarrow>
     (case get_all_chapters E (manga_id (Manga E data1)) lang of
        Inl e \<Rightarrow> (Inl e, net_call ''get_all_chapters'' (manga_id (Manga E data1)) w1)
      | Inr chs \<Rightarrow>
          (Inr ((Manga E data1)\<lparr>chapters := chs\<rparr>),
           net_call ''get_all_chapters'' (manga_id (Manga E data1)) w1))))))"

section \<open>Collaborators with a contract in the specification\<close>

text \<open>
  Modelled from the spec: \<open>ChapterPageDownloader.download\<close> (module \<open>downloader\<close>, not in
  the sources at hand). Section 4.1: if the destination exists and \<open>replace\<close> is false, skip
  the transfer and return success; otherwise transfer, return \<open>False\<close> on any transport
  failure and leave no partial file at the destination.
\<close>

definition page_download :: "env \<Rightarrow> string \<Rightarrow> path \<Rightarrow> bool \<Rightarrow> world \<Rightarrow> bool \<times> world" where
  "page_download E url dest replace w =
     (if dest \<in> fs w \<and> \<not> replace then (True, emit (Skip dest) w)
      else if net_ok E (clock w) url then
        (True, w\<lparr>fs := insert dest (fs w), clock := Suc (clock w),
                  trace := trace w @ [Transfer url dest True]\<rparr>)
      else
        (False, w\<lparr>clock := Suc (clock w), trace := trace w @ [Transfer url dest False]\<rparr>))"

text \<open>
  Modelled from the spec: \<open>utils.download\<close>, imported as \<open>download_file\<close> (module \<open>utils\<close>, not
  in the sources at hand). It is the same single-file download, with its result dropped.
\<close>

definition download_file :: "env \<Rightarrow> string \<Rightarrow> path \<Rightarrow> bool \<Rightarrow> world \<Rightarrow> world" where
  "download_file E url dest replace w = snd (page_download E url dest replace w)"

text \<open>
  Modelled from the spec: \<open>ChapterImages.fetch\<close> (module \<open>chapter\<close>, not in the sources at
  hand). Section 4.2: one call to the upstream chapter endpoint, which replaces the whole
  page sequence or fails.
\<close>

definition images_fetch :: "env \<Rightarrow> images \<Rightarrow> world \<Rightarrow> (error + page list) \<times> world" where
  "images_fetch E c w =
     (chapter_pages E (clock w) c,
      w\<lparr>clock := Suc (clock w), trace := trace w @ [FetchImages (fst c)]\<rparr>)"

section \<open>download (main.py, lines 130-280)\<close>

subsection \<open>Formatting a volume label: \<open>'%s' % vol\<close>\<close>

definition digit_char :: "nat \<Rightarrow> char" where
  "digit_char d = char_of (48 + d)"

function str_of_nat :: "nat \<Rightarrow> string" where
  "str_of_nat n = (if n < 10 then [digit_char n] else str_of_nat (n div 10) @ [digit_char (n mod 10)])"
  by pat_completeness auto
termination
  by (relation "measure id") auto

declare str_of_nat.simps [simp del]

definition str_of_int :: "int \<Rightarrow> string" where
  "str_of_int i = (if i < 0 then CHR ''-'' # str_of_nat (nat (- i)) else str_of_nat (nat i))"

fun str_of_vol :: "vol_label \<Rightarrow> string" where
  "str_of_vol (VolInt i) = str_of_int i"
| "str_of_vol (VolStr s) = s"

subsection \<open>The chapter folder name, lines 231-243\<close>

definition chapter_folder :: "vol_label \<Rightarrow> string \<Rightarrow> string" where
  "chapter_folder vol chap =
     (if vol = VolInt 0 \<and> chap = ''none'' then [] @ ''Oneshot''
      else if vol = VolStr ''none'' \<and> chap = ''none'' then [] @ ''Oneshot''
      else if vol = VolStr ''none'' \<and> chap = ''0'' then [] @ ''Oneshot''
      else (if vol \<noteq> VolStr ''none'' then [] @ (''Volume. '' @ str_of_vol vol @ '' '') else [])
             @ (''Chapter. '' @ chap))"

subsection \<open>The cover art quality, lines 201-207\<close>

definition cover_url :: "manga \<Rightarrow> string \<Rightarrow> error + string" where
  "cover_url m cover =
     (if cover = ''original'' then Inr (cover_art m)
      else if cover = ''512px'' then Inr (cover_art_512px m)
      else if cover = ''256px'' then Inr (cover_art_256px m)
      else Inl (UnboundLocalError ''cover_url''))"

subsection \<open>The page loop and the retry loop, lines 249-277\<close>

text \<open>
  One run of the \<open>for\<close> loop over \<open>images.iter()\<close>. \<open>Inr None\<close>: every page succeeded
  (\<open>error\<close> stayed \<open>False\<close>). \<open>Inr (Some ps)\<close>: a page failed, \<open>error\<close> was set, the image set
  was fetched again (now \<open>ps\<close>) and the loop was left by \<open>break\<close>.
\<close>

fun page_loop ::
  "env \<Rightarrow> bool \<Rightarrow> images \<Rightarrow> path \<Rightarrow> page list \<Rightarrow> world
    \<Rightarrow> (error + page list option) \<times> world" where
  "page_loop E replace c chapter_path [] w = (Inr None, w)"
| "page_loop E replace c chapter_path ((page, img_url, img_name) # rest) w =
     (case page_download E img_url (chapter_path @ [img_name]) replace w of
        (True, w1) \<Rightarrow> page_loop E replace c chapter_path rest w1
      | (False, w1) \<Rightarrow>
          (case images_fetch E c w1 of
             (Inl e, w2) \<Rightarrow> (Inl e, w2)
           | (Inr ps, w2) \<Rightarrow> (Inr (Some ps), w2)))"

text \<open>The \<open>while True\<close> loop. It has no bound, so not returning is the value \<open>None\<close>.\<close>

partial_function (option) chapter_loop ::
  "env \<Rightarrow> bool \<Rightarrow> images \<Rightarrow> path \<Rightarrow> page list \<Rightarrow> world
    \<Rightarrow> ((error + unit) \<times> world) option" where
  [code]: "chapter_loop E replace c chapter_path ps w =
     (case page_loop E replace c chapter_path ps w of
        (Inl e, w1) \<Rightarrow> Some (Inl e, w1)
      | (Inr None, w1) \<Rightarrow> Some (Inr (), w1)
      | (Inr (Some ps1), w1) \<Rightarrow> chapter_loop E replace c chapter_path ps1 w1)"

text \<open>
  The state after \<open>n\<close> passes that each failed and fetched the image set again:
  the refreshed page list and the world, if the first \<open>n\<close> passes go that way.
\<close>

fun retry_passes ::
  "env \<Rightarrow> bool \<Rightarrow> images \<Rightarrow> path \<Rightarrow> nat \<Rightarrow> page list \<Rightarrow> world
    \<Rightarrow> (page list \<times> world) option" where
  "retry_passes E replace c chapter_path 0 ps w = Some (ps, w)"
| "retry_passes E replace c chapter_path (Suc n) ps w =
     (case page_loop E replace c chapter_path ps w of
        (Inr (Some ps1), w1) \<Rightarrow> retry_passes E replace c chapter_path n ps1 w1
      | other \<Rightarrow> None)"

subsection \<open>One chapter: the body of the loop over the chapters, lines 224-277\<close>

definition chapter_start ::
  "env \<Rightarrow> path \<Rightarrow> vol_label \<Rightarrow> string \<Rightarrow> images \<Rightarrow> world
    \<Rightarrow> (error + page list) \<times> world" where
  "chapter_start E base_path vol chap c w =
     (case images_fetch E c w of
        (Inl e, w1) \<Rightarrow> (Inl e, w1)
      | (Inr ps, w1) \<Rightarrow>
          (Inr ps,
           if base_path @ [chapter_folder vol chap] \<notin> fs w1
           then (emit (Mkdir (base_path @ [chapter_folder vol chap])) w1)
                  \<lparr>fs := insert (base_path @ [chapter_folder vol chap]) (fs w1)\<rparr>
           else w1))"

definition download_chapter ::
  "env \<Rightarrow> bool \<Rightarrow> path \<Rightarrow> vol_label \<Rightarrow> string \<Rightarrow> images \<Rightarrow> world
    \<Rightarrow> ((error + unit) \<times> world) option" where
  "download_chapter E replace base_path vol chap c w =
     (case chapter_start E base_path vol chap c w of
        (Inl e, w1) \<Rightarrow> Some (Inl e, w1)
      | (Inr ps, w1) \<Rightarrow>
          chapter_loop E replace c (base_path @ [chapter_folder vol chap]) ps w1)"

fun download_chapters ::
  "env \<Rightarrow> bool \<Rightarrow> path \<Rightarrow> (vol_label \<times> string \<times> images) list \<Rightarrow> world
    \<Rightarrow> ((error + unit) \<times> world) option" where
  "download_chapters E replace base_path [] w = Some (Inr (), w)"
| "download_chapters E replace base_path ((vol, chap, c) # rest) w =
     (case download_chapter E replace base_path vol chap c w of
        None \<Rightarrow> None
      | Some (Inl e, w1) \<Rightarrow> Some (Inl e, w1)
      | Some (Inr u, w1) \<Rightarrow> download_chapters E replace base_path rest w1)"

subsection \<open>Validation, fetch, folder, cover and details, lines 171-215\<close>

definition base_path_of :: "env \<Rightarrow> string option \<Rightarrow> manga \<Rightarrow> path" where
  "base_path_of E folder m =
     (case folder of
        None \<Rightarrow> []
      | Some f \<Rightarrow> if f = [] then [] else [f]) @ [sanitize_filename E (title m)]"

definition path_prefixes :: "path \<Rightarrow> path list" where
  "path_prefixes p = map (\<lambda>n. take n p) [1..<Suc (length p)]"

definition mkdir_parents :: "path \<Rightarrow> world \<Rightarrow> world" where
  "mkdir_parents p w = (emit (Mkdir p) w)\<lparr>fs := fs w \<union> set (path_prefixes p)\<rparr>"

definition write_details :: "path \<Rightarrow> world \<Rightarrow> world" where
  "write_details p w = (emit (WriteFile p) w)\<lparr>fs := insert p (fs w)\<rparr>"

definition download_validate :: "env \<Rightarrow> download_args \<Rightarrow> error option" where
  "download_validate E a =
     (if arg_start_chapter a \<noteq> PNone \<and> \<not> isinstance_float (arg_start_chapter a)
      then Some (ValueError ''start_chapter must be float'')
      else if arg_end_chapter a \<noteq> PNone \<and> \<not> isinstance_float (arg_end_chapter a)
      then Some (ValueError ''end_chapter must be float'')
      else (case py_gt (arg_start_chapter a) (arg_end_chapter a) of
              Inl e \<Rightarrow> Some e
            | Inr True \<Rightarrow> Some (ValueError ''start_chapter cannot be more than end_chapter'')
            | Inr False \<Rightarrow>
                if arg_cover a \<notin> set (valid_cover_types E)
                then Some (ValueError ''invalid cover type'')
                else None))"

definition download_prepare ::
  "env \<Rightarrow> download_args \<Rightarrow> world \<Rightarrow> (error + manga \<times> path) \<times> world" where
  "download_prepare E a w =
     (case download_validate E a of
        Some e \<Rightarrow> (Inl e, w)
      | None \<Rightarrow>
     (case fetch E (arg_url a) (arg_language a) w of
        (Inl e, w1) \<Rightarrow> (Inl e, w1)
      | (Inr m, w1) \<Rightarrow>
     (case cover_url m (arg_cover a) of
        Inl e \<Rightarrow> (Inl e, mkdir_parents (base_path_of E (arg_folder a) m) w1)
      | Inr cu \<Rightarrow>
          (Inr (m, base_path_of E (arg_folder a) m),
           write_details (base_path_of E (arg_folder a) m @ [''details.json''])
             (download_file E cu (base_path_of E (arg_folder a) m @ [''cover.jpg'']) True
               (mkdir_parents (base_path_of E (arg_folder a) m) w1))))))"

definition download ::
  "env \<Rightarrow> download_args \<Rightarrow> world \<Rightarrow> ((error + manga) \<times> world) option" where
  "download E a w =
     (case download_prepare E a w of
        (Inl e, w1) \<Rightarrow> Some (Inl e, w1)
      | (Inr (m, base_path), w1) \<Rightarrow>
          (case download_chapters E (arg_replace a) base_path
                  (iter_chapter_images E (chapters m) (arg_start_chapter a) (arg_end_chapter a)
                     (arg_no_oneshot_chapter a) (arg_compressed_image a)) w1 of
             None \<Rightarrow> None
           | Some (Inl e, w2) \<Rightarrow> Some (Inl e, w2)
           | Some (Inr u, w2) \<Rightarrow> Some (Inr m, w2)))"

subsection \<open>Reading a trace\<close>

fun is_fetch :: "event \<Rightarrow> bool" where
  "is_fetch (FetchImages c) = True"
| "is_fetch e = False"

fun is_failed :: "event \<Rightarrow> bool" where
  "is_failed (Transfer u p b) = (\<not> b)"
| "is_failed e = False"

fun is_transfer :: "event \<Rightarrow> bool" where
  "is_transfer (Transfer u p b) = True"
| "is_transfer e = False"

definition fetch_count :: "event list \<Rightarrow> nat" where
  "fetch_count evs = length (filter is_fetch evs)"

definition failed_count :: "event list \<Rightarrow> nat" where
  "failed_count evs = length (filter is_failed evs)"

text \<open>The destinations of the transfers that succeeded, in order.\<close>

fun transferred :: "event list \<Rightarrow> path list" where
  "transferred [] = []"
| "transferred (Transfer u p True # es) = p # transferred es"
| "transferred (e # es) = transferred es"

text \<open>The event of a page download that succeeded: a skip or a completed transfer.\<close>

definition page_succeeded :: "path \<Rightarrow> page \<Rightarrow> event \<Rightarrow> bool" where
  "page_succeeded chapter_path p e =
     (e = Skip (chapter_path @ [snd (snd p)])
      \<or> e = Transfer (fst (snd p)) (chapter_path @ [snd (snd p)]) True)"

text \<open>
  From world \<open>w\<close> to world \<open>w'\<close> only new files were transferred: every file that a
  transfer completed was absent before, is present afterwards, and was transferred once.
\<close>

definition new_files_only :: "world \<Rightarrow> world \<Rightarrow> bool" where
  "new_files_only w w' =
     (\<exists>evs. trace w' = trace w @ evs \<and> fs w \<subseteq> fs w'
        \<and> distinct (transferred evs) \<and> set (transferred evs) \<subseteq> fs w' - fs w)"

text \<open>From world \<open>w\<close> to world \<open>w'\<close> events were added, none of them a transfer.\<close>

definition no_transfers :: "world \<Rightarrow> world \<Rightarrow> bool" where
  "no_transfers w w' =
     (\<exists>evs. trace w' = trace w @ evs \<and> filter is_transfer evs = [] \<and> fs w \<subseteq> fs w')"

text \<open>
  The events of a pass that failed at page \<open>k\<close>: the pages before \<open>k\<close> succeeded in order, the
  download of page \<open>k\<close> failed, the image set was fetched again at once, and no later page
  was tried.
\<close>

definition failed_pass :: "images \<Rightarrow> path \<Rightarrow> page list \<Rightarrow> event list \<Rightarrow> bool" where
  "failed_pass c chapter_path ps evs =
     (2 \<le> length evs \<and> length evs - 2 < length ps
      \<and> list_all2 (page_succeeded chapter_path)
           (take (length evs - 2) ps) (take (length evs - 2) evs)
      \<and> drop (length evs - 2) evs =
          [Transfer (fst (snd (ps ! (length evs - 2))))
             (chapter_path @ [snd (snd (ps ! (length evs - 2)))]) False,
           FetchImages (fst c)])"

section \<open>The command line entry point (cli/__init__.py)\<close>

datatype cli_event =
    RegisterKeyboardInterruptHandler
  | GetArgs
  | SetupLogging
  | LogError string
  | SetupProxy
  | Login
  | Download
  | Logout
  | CheckUpdate
  | CloseNetworkObject

record cli_args =
  cli_start_chapter :: pyval
  cli_end_chapter :: pyval

text \<open>
  The functions \<open>_main\<close> imports from \<open>args_parser\<close>, \<open>utils\<close>, \<open>auth\<close>, \<open>download\<close> and
  \<open>update\<close> are parameters: each either returns or raises.
\<close>

record cli_env =
  register_keyboardinterrupt_handler :: "error option"
  get_args :: "string list \<Rightarrow> error + cli_args"
  setup_logging :: "cli_args \<Rightarrow> error option"
  setup_proxy :: "cli_args \<Rightarrow> error option"
  login_with_err_handler :: "cli_args \<Rightarrow> error option"
  cli_download :: "cli_args \<Rightarrow> error option"
  logout_with_err_handler :: "cli_args \<Rightarrow> error option"
  check_update :: "error option"
  close_network_object :: "error option"

text \<open>Calling a collaborator: the call is recorded, then it returns or raises.\<close>

definition call ::
  "cli_event \<Rightarrow> error option \<Rightarrow> cli_event list
    \<Rightarrow> (cli_event list \<Rightarrow> (error + int) \<times> cli_event list) \<Rightarrow> (error + int) \<times> cli_event list" where
  "call ev r t k = (case r of Some e \<Rightarrow> (Inl e, t @ [ev]) | None \<Rightarrow> k (t @ [ev]))"

definition cli_main :: "cli_env \<Rightarrow> string list \<Rightarrow> (error + int) \<times> cli_event list" where
  "cli_main C argv =
     call RegisterKeyboardInterruptHandler (register_keyboardinterrupt_handler C) [] (\<lambda>t0.
     case get_args C argv of
       Inl e \<Rightarrow> (Inl e, t0 @ [GetArgs])
     | Inr args \<Rightarrow>
     call SetupLogging (setup_logging C args) (t0 @ [GetArgs]) (\<lambda>t1.
     case (if cli_start_chapter args \<noteq> PNone \<and> cli_end_chapter args \<noteq> PNone
           then py_gt (cli_start_chapter args) (cli_end_chapter args) else Inr False) of
       Inl e \<Rightarrow> (Inl e, t1)
     | Inr True \<Rightarrow> (Inr 1, t1 @ [LogError ''--start-chapter cannot be more than --end-chapter''])
     | Inr False \<Rightarrow>
     call SetupProxy (setup_proxy C args) t1 (\<lambda>t2.
     call Login (login_with_err_handler C args) t2 (\<lambda>t3.
     call Download (cli_download C args) t3 (\<lambda>t4.
     call Logout (logout_with_err_handler C args) t4 (\<lambda>t5.
     call CheckUpdate (check_update C) t5 (\<lambda>t6.
     call CloseNetworkObject (close_network_object C) t6 (\<lambda>t7.
     (Inr 0, t7)))))))))"

section \<open>The background worker (format/base.py, class \<open>_Worker\<close>)\<close>

text \<open>What a job does when the worker calls it.\<close>

datatype outcome = Returns | RaisesException | RaisesBaseException

text \<open>An entry of the queue: \<open>[event, job]\<close> for the job with that number, or \<open>None\<close>.\<close>

datatype item = Job nat | Stop

text \<open>Where the thread running \<open>_main\<close> is: at \<open>queue.get()\<close>, inside \<open>job()\<close>, returned, or
  ended by an exception that \<open>except Exception\<close> does not catch.\<close>

datatype worker_pc = AtGet | Running nat | Exited | Died

record worker_state =
  queue :: "item list"
  pc :: worker_pc
  submitted :: "nat list"
  started :: "nat list"
  events_set :: "nat set"
  returned :: "nat set"
  logged :: "string list"

definition worker_init :: worker_state where
  "worker_init =
     \<lparr>queue = [], pc = AtGet, submitted = [], started = [], events_set = {}, returned = {},
      logged = []\<rparr>"

text \<open>\<open>submit\<close>, lines 29-32: a new event and the job are put on the queue.\<close>

definition submit_put :: "nat \<Rightarrow> worker_state \<Rightarrow> worker_state" where
  "submit_put j s = s\<lparr>queue := queue s @ [Job j], submitted := submitted s @ [j]\<rparr>"

text \<open>\<open>submit\<close>, line 33: \<open>event.wait()\<close> returns only once the event is set.\<close>

definition submit_wait :: "nat \<Rightarrow> worker_state \<Rightarrow> worker_state option" where
  "submit_wait j s = (if j \<in> events_set s then Some (s\<lparr>returned := insert j (returned s)\<rparr>) else None)"

text \<open>\<open>_shutdown_main\<close>, line 37.\<close>

definition shutdown_main :: "worker_state \<Rightarrow> worker_state" where
  "shutdown_main s = s\<lparr>queue := queue s @ [Stop]\<rparr>"

text \<open>\<open>_main\<close>, lines 45-49: \<open>queue.get()\<close> blocks on an empty queue; \<open>None\<close> ends the loop.\<close>

definition worker_get :: "worker_state \<Rightarrow> worker_state option" where
  "worker_get s =
     (if pc s \<noteq> AtGet then None
      else case queue s of
             [] \<Rightarrow> None
           | Stop # q \<Rightarrow> Some (s\<lparr>queue := q, pc := Exited\<rparr>)
           | Job j # q \<Rightarrow> Some (s\<lparr>queue := q, pc := Running j, started := started s @ [j]\<rparr>))"

text \<open>\<open>_main\<close>, lines 50-54: the job runs; \<open>except Exception: pass\<close>; the event is set.\<close>

definition worker_run :: "(nat \<Rightarrow> outcome) \<Rightarrow> worker_state \<Rightarrow> worker_state option" where
  "worker_run job s =
     (case pc s of
        Running j \<Rightarrow>
          (case job j of
             Returns \<Rightarrow> Some (s\<lparr>pc := AtGet, events_set := insert j (events_set s)\<rparr>)
           | RaisesException \<Rightarrow> Some (s\<lparr>pc := AtGet, events_set := insert j (events_set s)\<rparr>)
           | RaisesBaseException \<Rightarrow> Some (s\<lparr>pc := Died\<rparr>))
      | other \<Rightarrow> None)"

text \<open>The threads interleave: any enabled step of a submitter, of the watchdog or of the
  worker can come next. Each submitted job has its own number, as each has its own event.\<close>

inductive step :: "(nat \<Rightarrow> outcome) \<Rightarrow> worker_state \<Rightarrow> worker_state \<Rightarrow> bool"
  for job :: "nat \<Rightarrow> outcome" where
  step_put: "j \<notin> set (submitted s) \<Longrightarrow> step job s (submit_put j s)"
| step_wait: "j \<in> set (submitted s) \<Longrightarrow> submit_wait j s = Some s' \<Longrightarrow> step job s s'"
| step_shutdown: "step job s (shutdown_main s)"
| step_get: "worker_get s = Some s' \<Longrightarrow> step job s s'"
| step_run: "worker_run job s = Some s' \<Longrightarrow> step job s s'"

inductive reachable :: "(nat \<Rightarrow> outcome) \<Rightarrow> worker_state \<Rightarrow> bool"
  for job :: "nat \<Rightarrow> outcome" where
  reach_init: "reachable job worker_init"
| reach_step: "reachable job s \<Longrightarrow> step job s s' \<Longrightarrow> reachable job s'"

text \<open>The jobs waiting in the queue, in order.\<close>

fun queued_jobs :: "item list \<Rightarrow> nat list" where
  "queued_jobs [] = []"
| "queued_jobs (Job j # q) = j # queued_jobs q"
| "queued_jobs (Stop # q) = queued_jobs q"

text \<open>What holds in every state the threads can reach.\<close>

definition worker_inv :: "(nat \<Rightarrow> outcome) \<Rightarrow> worker_state \<Rightarrow> bool" where
  "worker_inv job s =
     (returned s \<subseteq> events_set s
      \<and> events_set s \<subseteq> set (started s)
      \<and> (\<forall>j\<in>events_set s. job j \<noteq> RaisesBaseException)
      \<and> (\<forall>j. pc s = Running j \<longrightarrow> j \<notin> events_set s \<and> started s \<noteq> [] \<and> last (started s) = j)
      \<and> submitted s = started s @ queued_jobs (queue s)
      \<and> distinct (submitted s)
      \<and> logged s = [])"

section \<open>Concrete inputs\<close>

definition example_env :: env where
  "example_env =
     \<lparr>valid_cover_types = [''original'', ''512px'', ''256px''],
      get_language = (\<lambda>s. if s = ''en'' then Inr ''en'' else Inl (ValueError ''invalid language'')),
      validate_url = (\<lambda>u. if u = ''m1'' then Inr ''m1'' else Inl InvalidURL),
      get_manga = (\<lambda>i. if i = ''m1''
         then Inr \<lparr>md_id = ''m1'',
                   md_relationships = [\<lparr>rel_type = ''author'', rel_id = ''a1''\<rparr>,
                                       \<lparr>rel_type = ''cover_art'', rel_id = ''k1''\<rparr>],
                   md_cover_art = None, md_authors = [], md_artists = []\<rparr>
         else Inl InvalidManga),
      get_author = (\<lambda>i. Inr ''Author''),
      get_cover_art = (\<lambda>i. Inr ''cover.png''),
      Manga = (\<lambda>d. \<lparr>manga_id = md_id d, title = ''T'', cover_art = ''u/orig'',
                      cover_art_512px = ''u/512'', cover_art_256px = ''u/256'', chapters = []\<rparr>),
      get_all_chapters = (\<lambda>i l. if l = ''en'' then Inr [(VolInt 1, ''1'', ''c1'')]
                                  else Inl ChapterNotFound),
      sanitize_filename = (\<lambda>s. s),
      iter_chapter_images = (\<lambda>chs s e no ds. map (\<lambda>(v, ch, i). (v, ch, (i, ds))) chs),
      chapter_pages = (\<lambda>t c. Inr [(1, ''good1'', ''1.png''),
                                   (2, if t < 8 then ''stale'' else ''good2'', ''2.png'')]),
      net_ok = (\<lambda>t u. u \<noteq> ''stale'')\<rparr>"

definition example_args :: download_args where
  "example_args =
     \<lparr>arg_url = ''m1'', arg_folder = None, arg_replace = False, arg_compressed_image = False,
      arg_start_chapter = PFloat (Finite 1), arg_end_chapter = PFloat (Finite 5),
      arg_no_oneshot_chapter = False, arg_language = LangEnum ''en'', arg_cover = ''original''\<rparr>"

definition empty_world :: world where
  "empty_world = \<lparr>fs = {}, clock = 0, trace = []\<rparr>"

definition example_manga :: manga where
  "example_manga =
     \<lparr>manga_id = ''m1'', title = ''T'', cover_art = ''u/orig'', cover_art_512px = ''u/512'',
      cover_art_256px = ''u/256'', chapters = [(VolInt 1, ''1'', ''c1'')]\<rparr>"

text \<open>An upstream whose links never work.\<close>

definition broken_env :: env where
  "broken_env = example_env\<lparr>net_ok := (\<lambda>t u. False)\<rparr>"


text \<open>One chapter of the example: its second page is stale at the first fetch.\<close>

definition stale_pages :: "page list" where
  "stale_pages = [(1, ''good1'', ''1.png''), (2, ''stale'', ''2.png'')]"

definition fresh_pages :: "page list" where
  "fresh_pages = [(1, ''good1'', ''1.png''), (2, ''good2'', ''2.png'')]"

definition chapter_dir :: path where
  "chapter_dir = [''T'', ''Volume. 1 Chapter. 1'']"


definition chapter_world_started :: world where
  "chapter_world_started =
     \<lparr>fs = {[''T''], [''T'', ''Volume. 1 Chapter. 1'']}, clock = 6,
      trace = [FetchImages ''c1'', Mkdir [''T'', ''Volume. 1 Chapter. 1'']]\<rparr>"

definition chapter_world_retry :: world where
  "chapter_world_retry =
     \<lparr>fs = {[''T''], [''T'', ''Volume. 1 Chapter. 1''],
            [''T'', ''Volume. 1 Chapter. 1'', ''1.png'']},
      clock = 9,
      trace = [FetchImages ''c1'', Mkdir [''T'', ''Volume. 1 Chapter. 1''],
               Transfer ''good1'' [''T'', ''Volume. 1 Chapter. 1'', ''1.png''] True,
               Transfer ''stale'' [''T'', ''Volume. 1 Chapter. 1'', ''2.png''] False,
               FetchImages ''c1'']\<rparr>"

definition chapter_world_done :: world where
  "chapter_world_done =
     \<lparr>fs = {[''T''], [''T'', ''Volume. 1 Chapter. 1''],
            [''T'', ''Volume. 1 Chapter. 1'', ''1.png''],
            [''T'', ''Volume. 1 Chapter. 1'', ''2.png'']},
      clock = 10,
      trace = [FetchImages ''c1'', Mkdir [''T'', ''Volume. 1 Chapter. 1''],
               Transfer ''good1'' [''T'', ''Volume. 1 Chapter. 1'', ''1.png''] True,
               Transfer ''stale'' [''T'', ''Volume. 1 Chapter. 1'', ''2.png''] False,
               FetchImages ''c1'',
               Skip [''T'', ''Volume. 1 Chapter. 1'', ''1.png''],
               Transfer ''good2'' [''T'', ''Volume. 1 Chapter. 1'', ''2.png''] True]\<rparr>"


text \<open>The whole example, run twice: the world after the first run and the events of the
  second run.\<close>

definition first_run_world :: world where
  "first_run_world =
     \<lparr>fs = {[''T''], [''T'', ''cover.jpg''], [''T'', ''details.json''],
            [''T'', ''Volume. 1 Chapter. 1''],
            [''T'', ''Volume. 1 Chapter. 1'', ''1.png''],
            [''T'', ''Volume. 1 Chapter. 1'', ''2.png'']},
      clock = 10,
      trace = [NetCall ''get_manga'' ''m1'', NetCall ''get_author'' ''a1'',
               NetCall ''get_cover_art'' ''k1'', NetCall ''get_all_chapters'' ''m1'',
               Mkdir [''T''], Transfer ''u/orig'' [''T'', ''cover.jpg''] True,
               WriteFile [''T'', ''details.json''],
               FetchImages ''c1'', Mkdir [''T'', ''Volume. 1 Chapter. 1''],
               Transfer ''good1'' [''T'', ''Volume. 1 Chapter. 1'', ''1.png''] True,
               Transfer ''stale'' [''T'', ''Volume. 1 Chapter. 1'', ''2.png''] False,
               FetchImages ''c1'',
               Skip [''T'', ''Volume. 1 Chapter. 1'', ''1.png''],
               Transfer ''good2'' [''T'', ''Volume. 1 Chapter. 1'', ''2.png''] True]\<rparr>"

definition second_run_events :: "event list" where
  "second_run_events =
     [NetCall ''get_manga'' ''m1'', NetCall ''get_author'' ''a1'',
      NetCall ''get_cover_art'' ''k1'', NetCall ''get_all_chapters'' ''m1'',
      Mkdir [''T''], Transfer ''u/orig'' [''T'', ''cover.jpg''] True,
      WriteFile [''T'', ''details.json''],
      FetchImages ''c1'',
      Skip [''T'', ''Volume. 1 Chapter. 1'', ''1.png''],
      Skip [''T'', ''Volume. 1 Chapter. 1'', ''2.png'']]"

definition second_run_world :: world where
  "second_run_world =
     first_run_world\<lparr>clock := 16, trace := trace first_run_world @ second_run_events\<rparr>"

text \<open>The example in a language without chapters, and a manga the upstream does not know.\<close>

definition no_chapters_args :: download_args where
  "no_chapters_args = example_args\<lparr>arg_language := LangEnum ''fr''\<rparr>"

definition unknown_manga_env :: env where
  "unknown_manga_env = example_env\<lparr>validate_url := (\<lambda>u. Inr u)\<rparr>"

definition unknown_manga_args :: download_args where
  "unknown_manga_args = example_args\<lparr>arg_url := ''m2''\<rparr>"

text \<open>The example with the 512px cover.\<close>

definition cover_512_args :: download_args where
  "cover_512_args = example_args\<lparr>arg_cover := ''512px''\<rparr>"

text \<open>The world of the example after \<open>fetch\<close>.\<close>

definition fetched_world :: world where
  "fetched_world =
     \<lparr>fs = {}, clock = 4,
      trace = [NetCall ''get_manga'' ''m1'', NetCall ''get_author'' ''a1'',
               NetCall ''get_cover_art'' ''k1'', NetCall ''get_all_chapters'' ''m1'']\<rparr>"

text \<open>A command line whose collaborators all return, with reversed or ordered bounds.\<close>

definition reversed_cli_args :: cli_args where
  "reversed_cli_args =
     \<lparr>cli_start_chapter = PFloat (Finite 5), cli_end_chapter = PFloat (Finite 1)\<rparr>"

definition ordered_cli_args :: cli_args where
  "ordered_cli_args =
     \<lparr>cli_start_chapter = PFloat (Finite 1), cli_end_chapter = PFloat (Finite 5)\<rparr>"

definition example_cli_env :: cli_env where
  "example_cli_env =
     \<lparr>register_keyboardinterrupt_handler = None,
      get_args = (\<lambda>argv. if argv = [''--start-chapter'', ''5'', ''--end-chapter'', ''1'']
                           then Inr reversed_cli_args else Inr ordered_cli_args),
      setup_logging = (\<lambda>a. None),
      setup_proxy = (\<lambda>a. None),
      login_with_err_handler = (\<lambda>a. None),
      cli_download = (\<lambda>a. None),
      logout_with_err_handler = (\<lambda>a. None),
      check_update = None,
      close_network_object = None\<rparr>"

text \<open>The worker inside a job that is about to raise, and after it.\<close>

definition raising_job :: "nat \<Rightarrow> outcome" where
  "raising_job j = RaisesException"

definition worker_in_job :: worker_state where
  "worker_in_job =
     \<lparr>queue = [], pc = Running 0, submitted = [0], started = [0], events_set = {},
      returned = {}, logged = []\<rparr>"

definition worker_after_job :: worker_state where
  "worker_after_job =
     \<lparr>queue = [], pc = AtGet, submitted = [0], started = [0], events_set = {0},
      returned = {}, logged = []\<rparr>"

definition default_bounds_args :: download_args where
  "default_bounds_args = example_args\<lparr>arg_start_chapter := PNone, arg_end_chapter := PNone\<rparr>"

definition reversed_bounds_args :: download_args where
  "reversed_bounds_args =
     example_args\<lparr>arg_start_chapter := PFloat (Finite 5), arg_end_chapter := PFloat (Finite 1)\<rparr>"

section \<open>Validation of the arguments\<close>

lemma fetch_rels_fs: "fetch_rels E rs d w = (r, w1) \<Longrightarrow> fs w1 = fs w"
  by (induction E rs d w rule: fetch_rels.induct)
     (auto simp: net_call_def split: if_splits sum.splits)

lemma fetch_rels_fs_events:
  "fetch_rels E rs d w = (r, w1) \<Longrightarrow>
     filter is_fs_output (trace w1) = filter is_fs_output (trace w)"
  by (induction E rs d w rule: fetch_rels.induct)
     (auto simp: net_call_def split: if_splits sum.splits)

lemma fetch_fs: "fetch E url l w = (r, w1) \<Longrightarrow> fs w1 = fs w"
  by (auto simp: fetch_def net_call_def split: sum.splits prod.splits dest: fetch_rels_fs)

lemma fetch_fs_events:
  "fetch E url l w = (r, w1) \<Longrightarrow> filter is_fs_output (trace w1) = filter is_fs_output (trace w)"
  by (auto simp: fetch_def net_call_def split: sum.splits prod.splits dest: fetch_rels_fs_events)

lemma validate_error_download:
  "download_validate E a = Some e \<Longrightarrow> download E a w = Some (Inl e, w)"
  by (simp add: download_def download_prepare_def)

lemma validate_none_floats:
  "download_validate E a = None \<Longrightarrow>
     isinstance_float (arg_start_chapter a) \<and> isinstance_float (arg_end_chapter a)"
  by (cases "arg_start_chapter a"; cases "arg_end_chapter a")
     (auto simp: download_validate_def split: if_splits)

lemma download_success_validated:
  "download E a w = Some (Inr m, w1) \<Longrightarrow> download_validate E a = None"
  by (cases "download_validate E a") (auto simp: validate_error_download)

text \<open>
  Claim C1. Every configuration error is raised before any network activity: when both
  bounds are floats with \<open>start_chapter > end_chapter\<close>, when the cover value is not a valid
  cover type, or when the language is invalid, \<open>download\<close> raises and the world (file system,
  upstream clock, event trace) is exactly the one it was called in. With reversed float
  bounds the error is the \<open>ValueError\<close> of line 178.
\<close>

theorem config_error_before_network:
  assumes "(\<exists>x y. arg_start_chapter a = PFloat x \<and> arg_end_chapter a = PFloat y \<and> float_gt x y)
         \<or> arg_cover a \<notin> set (valid_cover_types E)
         \<or> (\<exists>e. parse_language E (arg_language a) = Inl e)"
  shows "(\<exists>e. download E a w = Some (Inl e, w))
       \<and> (\<forall>x y. arg_start_chapter a = PFloat x \<and> arg_end_chapter a = PFloat y \<and> float_gt x y
            \<longrightarrow> download E a w =
                  Some (Inl (ValueError ''start_chapter cannot be more than end_chapter''), w))"
  using assms
  by (cases "arg_start_chapter a"; cases "arg_end_chapter a")
     (auto simp: download_def download_prepare_def download_validate_def fetch_def
           split: bool.splits)

theorem config_error_before_network_witness:
  "arg_start_chapter reversed_bounds_args = PFloat (Finite 5)
   \<and> arg_end_chapter reversed_bounds_args = PFloat (Finite 1)
   \<and> float_gt (Finite 5) (Finite 1)
   \<and> download example_env reversed_bounds_args empty_world =
       Some (Inl (ValueError ''start_chapter cannot be more than end_chapter''), empty_world)"
  using config_error_before_network [of reversed_bounds_args example_env empty_world]
  by (simp add: reversed_bounds_args_def example_args_def)

text \<open>
  Claim C10, as stated, fails: with \<open>start_chapter=None\<close> and an int as \<open>end_chapter\<close> the type
  check of line 174 raises \<open>ValueError\<close> and the comparison is never reached.
\<close>

theorem none_bound_type_error_counterexample:
  "download example_env
     (example_args\<lparr>arg_start_chapter := PNone, arg_end_chapter := PInt 3\<rparr>) empty_world =
   Some (Inl (ValueError ''end_chapter must be float''), empty_world)"
  by (simp add: download_def download_prepare_def download_validate_def example_args_def)

text \<open>
  Claim C10, amended. When \<open>start_chapter\<close> or \<open>end_chapter\<close> is \<open>None\<close>, \<open>download\<close> raises
  before any network activity or file system output (the world is unchanged); the error is
  the \<open>TypeError\<close> of the comparison whenever the other bound is \<open>None\<close> or a float. So
  \<open>download\<close> can only succeed when both bounds are floats.
\<close>

theorem none_bound_raises:
  "(arg_start_chapter a = PNone \<or> arg_end_chapter a = PNone \<longrightarrow>
      (\<exists>e. download E a w = Some (Inl e, w))
      \<and> ((arg_start_chapter a = PNone \<or> isinstance_float (arg_start_chapter a))
           \<and> (arg_end_chapter a = PNone \<or> isinstance_float (arg_end_chapter a))
         \<longrightarrow> (\<exists>msg. download E a w = Some (Inl (TypeError msg), w))))
   \<and> (\<forall>m w1. download E a w = Some (Inr m, w1) \<longrightarrow>
         isinstance_float (arg_start_chapter a) \<and> isinstance_float (arg_end_chapter a))"
proof (intro conjI impI allI)
  assume "arg_start_chapter a = PNone \<or> arg_end_chapter a = PNone"
  then show "\<exists>e. download E a w = Some (Inl e, w)"
    by (cases "arg_start_chapter a"; cases "arg_end_chapter a")
       (auto simp: download_def download_prepare_def download_validate_def)
next
  assume "arg_start_chapter a = PNone \<or> arg_end_chapter a = PNone"
    and "(arg_start_chapter a = PNone \<or> isinstance_float (arg_start_chapter a))
       \<and> (arg_end_chapter a = PNone \<or> isinstance_float (arg_end_chapter a))"
  then show "\<exists>msg. download E a w = Some (Inl (TypeError msg), w)"
    by (cases "arg_start_chapter a"; cases "arg_end_chapter a")
       (auto simp: download_def download_prepare_def download_validate_def)
next
  fix m w1
  assume "download E a w = Some (Inr m, w1)"
  then show "isinstance_float (arg_start_chapter a)" "isinstance_float (arg_end_chapter a)"
    using validate_none_floats download_success_validated by blast+
qed

theorem none_bound_raises_witness:
  "arg_start_chapter default_bounds_args = PNone
   \<and> arg_end_chapter default_bounds_args = PNone
   \<and> (\<exists>msg. download example_env default_bounds_args empty_world =
               Some (Inl (TypeError msg), empty_world))"
  using none_bound_raises [of default_bounds_args example_env empty_world]
  by (simp add: default_bounds_args_def example_args_def)

section \<open>The chapter folder\<close>

text \<open>
  Claim C5. The folder name is exactly \<open>"Oneshot"\<close> for precisely the three oneshot
  combinations; for every other pair it is \<open>"Volume. {vol} Chapter. {chap}"\<close> when the volume
  is not \<open>"none"\<close> and \<open>"Chapter. {chap}"\<close> when it is.
\<close>

theorem chapter_folder_name:
  "chapter_folder vol chap =
     (if (vol, chap) \<in> {(VolInt 0, ''none''), (VolStr ''none'', ''none''), (VolStr ''none'', ''0'')}
      then ''Oneshot''
      else if vol \<noteq> VolStr ''none'' then ''Volume. '' @ str_of_vol vol @ '' Chapter. '' @ chap
      else ''Chapter. '' @ chap)
   \<and> (chapter_folder vol chap = ''Oneshot'' \<longleftrightarrow>
        (vol, chap) \<in> {(VolInt 0, ''none''), (VolStr ''none'', ''none''), (VolStr ''none'', ''0'')})"
  by (auto simp: chapter_folder_def)

theorem chapter_folder_name_witness:
  "chapter_folder (VolInt 0) ''none'' = ''Oneshot''
   \<and> chapter_folder (VolStr ''none'') ''none'' = ''Oneshot''
   \<and> chapter_folder (VolStr ''none'') ''0'' = ''Oneshot''
   \<and> chapter_folder (VolStr ''2'') ''7'' = ''Volume. 2 Chapter. 7''
   \<and> chapter_folder (VolStr ''none'') ''7'' = ''Chapter. 7''
   \<and> chapter_folder (VolInt 0) ''7'' \<noteq> ''Oneshot''"
  using chapter_folder_name [of "VolInt 0" "''none''"]
    chapter_folder_name [of "VolStr ''none''" "''none''"]
    chapter_folder_name [of "VolStr ''none''" "''0''"]
    chapter_folder_name [of "VolStr ''2''" "''7''"]
    chapter_folder_name [of "VolStr ''none''" "''7''"]
    chapter_folder_name [of "VolInt 0" "''7''"]
  by simp

section \<open>The retry loop of a chapter\<close>



lemma fetch_count_append: "fetch_count (xs @ ys) = fetch_count xs + fetch_count ys"
  by (simp add: fetch_count_def)

lemma failed_count_append: "failed_count (xs @ ys) = failed_count xs + failed_count ys"
  by (simp add: failed_count_def)


lemma page_download_event:
  assumes "page_download E u p r w = (b, w')"
  shows "\<exists>e. trace w' = trace w @ [e] \<and> \<not> is_fetch e \<and> is_failed e = (\<not> b)
           \<and> (b \<longrightarrow> (e = Skip p \<or> e = Transfer u p True) \<and> p \<in> fs w')
           \<and> (\<not> b \<longrightarrow> e = Transfer u p False)
           \<and> fs w \<subseteq> fs w' \<and> fs w' \<subseteq> insert p (fs w)
           \<and> (\<not> r \<longrightarrow> is_transfer e \<longrightarrow> p \<notin> fs w)
           \<and> (r \<longrightarrow> is_transfer e)"
  using assms by (auto simp: page_download_def emit_def split: if_splits)

lemma images_fetch_event:
  assumes "images_fetch E c w = (r, w')"
  shows "trace w' = trace w @ [FetchImages (fst c)] \<and> fs w' = fs w
         \<and> r = chapter_pages E (clock w) c"
  using assms by (auto simp: images_fetch_def)

lemma page_loop_clean:
  "page_loop E r c dir ps w = (Inr None, w') \<Longrightarrow>
     \<exists>evs. trace w' = trace w @ evs \<and> list_all2 (page_succeeded dir) ps evs
          \<and> fs w \<subseteq> fs w' \<and> (\<forall>p\<in>set ps. dir @ [snd (snd p)] \<in> fs w')"
proof (induction E r c dir ps w rule: page_loop.induct)
  case (1 E replace c chapter_path w)
  then show ?case by simp
next
  case (2 E replace c chapter_path page img_url img_name rest w)
  obtain b w1 where pd: "page_download E img_url (chapter_path @ [img_name]) replace w = (b, w1)"
    by (cases "page_download E img_url (chapter_path @ [img_name]) replace w")
  show ?case
  proof (cases b)
    case True
    with pd "2.prems" have rest: "page_loop E replace c chapter_path rest w1 = (Inr None, w')"
      by simp
    from "2.IH" [OF pd [symmetric, unfolded True] _ rest] True
    obtain evs where evs: "trace w' = trace w1 @ evs"
      "list_all2 (page_succeeded chapter_path) rest evs" "fs w1 \<subseteq> fs w'"
      "\<forall>p\<in>set rest. chapter_path @ [snd (snd p)] \<in> fs w'"
      by auto
    from page_download_event [OF pd] True obtain e where e: "trace w1 = trace w @ [e]"
      "e = Skip (chapter_path @ [img_name]) \<or> e = Transfer img_url (chapter_path @ [img_name]) True"
      "chapter_path @ [img_name] \<in> fs w1" "fs w \<subseteq> fs w1"
      by auto
    have "trace w' = trace w @ (e # evs)" using e evs by simp
    moreover have "list_all2 (page_succeeded chapter_path) ((page, img_url, img_name) # rest) (e # evs)"
      using e evs by (auto simp: page_succeeded_def)
    ultimately show ?thesis using e evs by (intro exI [of _ "e # evs"]) auto
  next
    case False
    with pd "2.prems" show ?thesis by (auto split: prod.splits sum.splits)
  qed
qed


lemma list_all2_succeeded_counts:
  "list_all2 (page_succeeded dir) ps evs \<Longrightarrow> fetch_count evs = 0 \<and> failed_count evs = 0"
  by (induction rule: list_all2_induct)
     (auto simp: fetch_count_def failed_count_def page_succeeded_def)

lemma failed_pass_iff:
  "failed_pass c dir ps evs \<longleftrightarrow>
     (\<exists>k pre. k < length ps \<and> length pre = k
        \<and> list_all2 (page_succeeded dir) (take k ps) pre
        \<and> evs = pre @ [Transfer (fst (snd (ps ! k))) (dir @ [snd (snd (ps ! k))]) False,
                         FetchImages (fst c)])"
proof
  assume fp: "failed_pass c dir ps evs"
  define k where "k = length evs - 2"
  from fp have "k < length ps" "list_all2 (page_succeeded dir) (take k ps) (take k evs)"
    "drop k evs = [Transfer (fst (snd (ps ! k))) (dir @ [snd (snd (ps ! k))]) False,
                   FetchImages (fst c)]" "2 \<le> length evs"
    unfolding failed_pass_def k_def by auto
  moreover have "evs = take k evs @ drop k evs" by simp
  moreover have "length (take k evs) = k" using \<open>2 \<le> length evs\<close> by (simp add: k_def)
  ultimately show "\<exists>k pre. k < length ps \<and> length pre = k
        \<and> list_all2 (page_succeeded dir) (take k ps) pre
        \<and> evs = pre @ [Transfer (fst (snd (ps ! k))) (dir @ [snd (snd (ps ! k))]) False,
                         FetchImages (fst c)]"
    by metis
next
  assume "\<exists>k pre. k < length ps \<and> length pre = k
        \<and> list_all2 (page_succeeded dir) (take k ps) pre
        \<and> evs = pre @ [Transfer (fst (snd (ps ! k))) (dir @ [snd (snd (ps ! k))]) False,
                         FetchImages (fst c)]"
  then obtain k pre where k: "k < length ps" "length pre = k"
    "list_all2 (page_succeeded dir) (take k ps) pre"
    "evs = pre @ [Transfer (fst (snd (ps ! k))) (dir @ [snd (snd (ps ! k))]) False,
                   FetchImages (fst c)]"
    by blast
  have len: "length evs - 2 = k" using k(2,4) by simp
  show "failed_pass c dir ps evs"
    unfolding failed_pass_def len using k by simp
qed

lemma failed_pass_Cons:
  assumes "page_succeeded dir p e" and "failed_pass c dir ps evs"
  shows "failed_pass c dir (p # ps) (e # evs)"
proof -
  from assms(2) obtain k pre where k: "k < length ps" "length pre = k"
    "list_all2 (page_succeeded dir) (take k ps) pre"
    "evs = pre @ [Transfer (fst (snd (ps ! k))) (dir @ [snd (snd (ps ! k))]) False,
                   FetchImages (fst c)]"
    unfolding failed_pass_iff by blast
  have "Suc k < length (p # ps)" "length (e # pre) = Suc k"
    "list_all2 (page_succeeded dir) (take (Suc k) (p # ps)) (e # pre)"
    "e # evs = (e # pre) @ [Transfer (fst (snd ((p # ps) ! Suc k)))
        (dir @ [snd (snd ((p # ps) ! Suc k))]) False, FetchImages (fst c)]"
    using k assms(1) by simp_all
  then show ?thesis unfolding failed_pass_iff by blast
qed

lemma failed_pass_first:
  "failed_pass c dir ((page, u, name) # rest) [Transfer u (dir @ [name]) False, FetchImages (fst c)]"
  by (simp add: failed_pass_def)

lemma page_loop_failed:
  "page_loop E r c dir ps w = (res, w') \<Longrightarrow> res \<noteq> Inr None \<Longrightarrow>
     \<exists>evs. trace w' = trace w @ evs \<and> failed_pass c dir ps evs \<and> fs w \<subseteq> fs w'
          \<and> (\<exists>t. (case res of Inl e \<Rightarrow> Inl e | Inr x \<Rightarrow> Inr (the x)) = chapter_pages E t c)"
proof (induction E r c dir ps w rule: page_loop.induct)
  case (1 E replace c chapter_path w)
  then show ?case by simp
next
  case (2 E replace c chapter_path page img_url img_name rest w)
  obtain b w1 where pd: "page_download E img_url (chapter_path @ [img_name]) replace w = (b, w1)"
    by (cases "page_download E img_url (chapter_path @ [img_name]) replace w")
  show ?case
  proof (cases b)
    case True
    with pd "2.prems" have rest: "page_loop E replace c chapter_path rest w1 = (res, w')"
      by simp
    from "2.IH" [OF pd [symmetric, unfolded True] _ rest "2.prems"(2)] True
    obtain evs where evs: "trace w' = trace w1 @ evs"
      "failed_pass c chapter_path rest evs" "fs w1 \<subseteq> fs w'"
      "\<exists>t. (case res of Inl e \<Rightarrow> Inl e | Inr x \<Rightarrow> Inr (the x)) = chapter_pages E t c"
      by auto
    from page_download_event [OF pd] True obtain e where e: "trace w1 = trace w @ [e]"
      "e = Skip (chapter_path @ [img_name]) \<or> e = Transfer img_url (chapter_path @ [img_name]) True"
      "fs w \<subseteq> fs w1"
      by auto
    have "page_succeeded chapter_path (page, img_url, img_name) e"
      using e(2) by (simp add: page_succeeded_def)
    then have "failed_pass c chapter_path ((page, img_url, img_name) # rest) (e # evs)"
      using evs(2) by (rule failed_pass_Cons)
    then show ?thesis using e evs by (intro exI [of _ "e # evs"]) auto
  next
    case False
    from page_download_event [OF pd] False have e: 
      "trace w1 = trace w @ [Transfer img_url (chapter_path @ [img_name]) False]" "fs w \<subseteq> fs w1"
      by auto
    obtain r2 w2 where f: "images_fetch E c w1 = (r2, w2)" by (cases "images_fetch E c w1")
    from images_fetch_event [OF f] have f2: "trace w2 = trace w1 @ [FetchImages (fst c)]"
      "fs w2 = fs w1" "r2 = chapter_pages E (clock w1) c" by auto
    from pd False f "2.prems" have "w' = w2" and res: "res = (case r2 of Inl e \<Rightarrow> Inl e | Inr ps \<Rightarrow> Inr (Some ps))"
      by (auto split: sum.splits)
    have fp: "failed_pass c chapter_path ((page, img_url, img_name) # rest)
            [Transfer img_url (chapter_path @ [img_name]) False, FetchImages (fst c)]"
      by (rule failed_pass_first)
    have "(case res of Inl e \<Rightarrow> Inl e | Inr x \<Rightarrow> Inr (the x)) = chapter_pages E (clock w1) c"
      using res f2(3) by (auto split: sum.splits)
    then show ?thesis using e f2 fp \<open>w' = w2\<close>
      by (intro exI [of _ "[Transfer img_url (chapter_path @ [img_name]) False, FetchImages (fst c)]"]) auto
  qed
qed

lemma failed_pass_counts:
  assumes "failed_pass c dir ps evs"
  shows "fetch_count evs = 1 \<and> failed_count evs = 1"
proof -
  let ?k = "length evs - 2"
  from assms have a: "list_all2 (page_succeeded dir) (take ?k ps) (take ?k evs)"
    and b: "drop ?k evs = [Transfer (fst (snd (ps ! ?k))) (dir @ [snd (snd (ps ! ?k))]) False,
           FetchImages (fst c)]"
    by (auto simp: failed_pass_def)
  have "evs = take ?k evs @ drop ?k evs" by simp
  then have "fetch_count evs = fetch_count (take ?k evs) + fetch_count (drop ?k evs)"
    "failed_count evs = failed_count (take ?k evs) + failed_count (drop ?k evs)"
    by (metis fetch_count_append, metis failed_count_append)
  then show ?thesis
    using list_all2_succeeded_counts [OF a] b by (simp add: fetch_count_def failed_count_def)
qed

lemma retry_passes_loop:
  "retry_passes E r c dir n ps w = Some (ps', w') \<Longrightarrow>
     chapter_loop E r c dir ps w = chapter_loop E r c dir ps' w'"
proof (induction n arbitrary: ps w)
  case 0
  then show ?case by simp
next
  case (Suc n)
  then obtain ps1 w1 where pl: "page_loop E r c dir ps w = (Inr (Some ps1), w1)"
    and rest: "retry_passes E r c dir n ps1 w1 = Some (ps', w')"
    by (auto split: prod.splits sum.splits option.splits)
  have "chapter_loop E r c dir ps w = chapter_loop E r c dir ps1 w1"
    by (subst chapter_loop.simps) (simp add: pl)
  with Suc.IH [OF rest] show ?case by simp
qed

lemma retry_passes_counts:
  "retry_passes E r c dir n ps w = Some (ps', w') \<Longrightarrow>
     fetch_count (trace w') = fetch_count (trace w) + n
     \<and> failed_count (trace w') = failed_count (trace w) + n
     \<and> fs w \<subseteq> fs w'
     \<and> (n = 0 \<and> ps' = ps \<or> (\<exists>t. chapter_pages E t c = Inr ps'))"
proof (induction n arbitrary: ps w)
  case 0
  then show ?case by simp
next
  case (Suc n)
  then obtain ps1 w1 where pl: "page_loop E r c dir ps w = (Inr (Some ps1), w1)"
    and rest: "retry_passes E r c dir n ps1 w1 = Some (ps', w')"
    by (auto split: prod.splits sum.splits option.splits)
  from page_loop_failed [OF pl] obtain evs t where evs: "trace w1 = trace w @ evs"
    "failed_pass c dir ps evs" "fs w \<subseteq> fs w1" "chapter_pages E t c = Inr ps1"
    by auto
  from failed_pass_counts [OF evs(2)] evs(1)
  have c1: "fetch_count (trace w1) = fetch_count (trace w) + 1"
    "failed_count (trace w1) = failed_count (trace w) + 1"
    by (simp_all add: fetch_count_append failed_count_append)
  from Suc.IH [OF rest] c1 evs show ?case by auto
qed

lemma chapter_loop_done:
  assumes "chapter_loop E r c dir ps w = Some y"
  shows "\<exists>n ps' w''. retry_passes E r c dir n ps w = Some (ps', w'')
       \<and> (case y of
            (Inr u, w') \<Rightarrow> page_loop E r c dir ps' w'' = (Inr None, w')
          | (Inl e, w') \<Rightarrow> page_loop E r c dir ps' w'' = (Inl e, w'))"
  using assms
proof (induct rule: chapter_loop.raw_induct [rotated, consumes 1, case_names step])
  case (step loop E r c dir ps w y)
  obtain res w1 where pl: "page_loop E r c dir ps w = (res, w1)"
    by (cases "page_loop E r c dir ps w")
  show ?case
  proof (cases res)
    case (Inl e)
    with pl step(2) have "y = (Inl e, w1)" by simp
    with pl Inl show ?thesis by (intro exI [of _ 0]) simp
  next
    case (Inr x)
    show ?thesis
    proof (cases x)
      case None
      with Inr pl step(2) have "y = (Inr (), w1)" by simp
      with pl Inr None show ?thesis by (intro exI [of _ 0]) simp
    next
      case (Some ps1)
      with Inr pl step(2) have "loop E r c dir ps1 w1 = Some y" by simp
      from step(1) [OF this] obtain n ps' w'' where
        "retry_passes E r c dir n ps1 w1 = Some (ps', w'')"
        "case y of (Inr u, w') \<Rightarrow> page_loop E r c dir ps' w'' = (Inr None, w')
          | (Inl e, w') \<Rightarrow> page_loop E r c dir ps' w'' = (Inl e, w')"
        by blast
      with pl Inr Some show ?thesis by (intro exI [of _ "Suc n"]) simp
    qed
  qed
qed

lemma chapter_loop_diverges:
  assumes "\<forall>n. retry_passes E r c dir n ps w \<noteq> None"
  shows "chapter_loop E r c dir ps w = None"
proof (rule ccontr)
  assume "chapter_loop E r c dir ps w \<noteq> None"
  then obtain y where y: "chapter_loop E r c dir ps w = Some y" by auto
  from chapter_loop_done [OF y] obtain n ps' w'' where
    rp: "retry_passes E r c dir n ps w = Some (ps', w'')"
    and pl: "case y of (Inr u, w') \<Rightarrow> page_loop E r c dir ps' w'' = (Inr None, w')
          | (Inl e, w') \<Rightarrow> page_loop E r c dir ps' w'' = (Inl e, w')"
    by blast
  have "retry_passes E r c dir (Suc n) ps w = None"
    using rp
  proof (induction n arbitrary: ps w)
    case 0
    then show ?case using pl by (auto split: prod.splits sum.splits)
  next
    case (Suc n)
    from Suc.prems obtain ps1 w1 where p1: "page_loop E r c dir ps w = (Inr (Some ps1), w1)"
      and rest: "retry_passes E r c dir n ps1 w1 = Some (ps', w'')"
      by (auto split: prod.splits sum.splits option.splits)
    have "retry_passes E r c dir (Suc (Suc n)) ps w = retry_passes E r c dir (Suc n) ps1 w1"
      by (subst retry_passes.simps(2)) (simp add: p1)
    with Suc.IH [OF rest] show ?case by simp
  qed
  with assms show False by blast
qed









lemma chapter_start_facts:
  assumes "chapter_start E base vol chap c w = (r, w')"
  shows "new_files_only w w'"
    and "fetch_count (trace w') = fetch_count (trace w) + 1"
    and "failed_count (trace w') = failed_count (trace w)"
    and "r = chapter_pages E (clock w) c"
  using assms
  by (auto simp: chapter_start_def images_fetch_def emit_def new_files_only_def
        fetch_count_def failed_count_def split: sum.splits if_splits)


text \<open>
  Claim C3. A pass in which a page download fails ends with that failure followed at once
  by a fetch of the image set, and once the fetch has returned the loop goes on with a pass
  over the whole refreshed set; after any number of failed passes the loop is still running, having fetched once
  per failed pass; the loop returns normally only by a pass in which every page of the
  current set succeeded, in order; and when every pass fails, it never returns.
\<close>

theorem retry_until_clean_pass:
  "(\<forall>res w1. page_loop E r c dir ps w = (res, w1) \<and> res \<noteq> Inr None \<longrightarrow>
       (\<exists>evs. trace w1 = trace w @ evs \<and> failed_pass c dir ps evs))
   \<and> (\<forall>ps1 w1. page_loop E r c dir ps w = (Inr (Some ps1), w1) \<longrightarrow>
       (\<exists>t. chapter_pages E t c = Inr ps1)
       \<and> chapter_loop E r c dir ps w = chapter_loop E r c dir ps1 w1)
   \<and> (\<forall>n ps' w'. retry_passes E r c dir n ps w = Some (ps', w') \<longrightarrow>
         chapter_loop E r c dir ps w = chapter_loop E r c dir ps' w'
         \<and> fetch_count (trace w') = fetch_count (trace w) + n)
   \<and> (\<forall>w'. chapter_loop E r c dir ps w = Some (Inr (), w') \<longrightarrow>
         (\<exists>n ps' w'' evs. retry_passes E r c dir n ps w = Some (ps', w'')
            \<and> trace w' = trace w'' @ evs \<and> list_all2 (page_succeeded dir) ps' evs))
   \<and> ((\<forall>n. retry_passes E r c dir n ps w \<noteq> None) \<longrightarrow> chapter_loop E r c dir ps w = None)"
proof (intro conjI allI impI)
  fix res w1
  assume "page_loop E r c dir ps w = (res, w1) \<and> res \<noteq> Inr None"
  then have "page_loop E r c dir ps w = (res, w1)" "res \<noteq> Inr None" by auto
  from page_loop_failed [OF this]
  show "\<exists>evs. trace w1 = trace w @ evs \<and> failed_pass c dir ps evs" by blast
next
  fix ps1 w1
  assume pl: "page_loop E r c dir ps w = (Inr (Some ps1), w1)"
  from page_loop_failed [OF pl]
  show "\<exists>t. chapter_pages E t c = Inr ps1"
    by auto
  show "chapter_loop E r c dir ps w = chapter_loop E r c dir ps1 w1"
    by (subst chapter_loop.simps) (simp add: pl)
next
  fix n ps' w'
  assume rp: "retry_passes E r c dir n ps w = Some (ps', w')"
  show "chapter_loop E r c dir ps w = chapter_loop E r c dir ps' w'"
    by (rule retry_passes_loop [OF rp])
  show "fetch_count (trace w') = fetch_count (trace w) + n"
    using retry_passes_counts [OF rp] by simp
next
  fix w'
  assume "chapter_loop E r c dir ps w = Some (Inr (), w')"
  from chapter_loop_done [OF this] obtain n ps' w'' where
    rp: "retry_passes E r c dir n ps w = Some (ps', w'')"
    and pl: "page_loop E r c dir ps' w'' = (Inr None, w')"
    by auto
  from page_loop_clean [OF pl] rp
  show "\<exists>n ps' w'' evs. retry_passes E r c dir n ps w = Some (ps', w'')
            \<and> trace w' = trace w'' @ evs \<and> list_all2 (page_succeeded dir) ps' evs"
    by blast
next
  assume "\<forall>n. retry_passes E r c dir n ps w \<noteq> None"
  then show "chapter_loop E r c dir ps w = None" by (rule chapter_loop_diverges)
qed

lemma broken_env_always_fails:
  "retry_passes broken_env True c dir n (p # rest) w \<noteq> None"
proof (induction n arbitrary: p rest w)
  case 0
  then show ?case by simp
next
  case (Suc n)
  obtain page u name where p: "p = (page, u, name)" by (cases p)
  have "\<exists>q qs w1. page_loop broken_env True c dir (p # rest) w = (Inr (Some (q # qs)), w1)"
    by (simp add: p page_download_def images_fetch_def broken_env_def example_env_def)
  then obtain q qs w1 where
    "page_loop broken_env True c dir (p # rest) w = (Inr (Some (q # qs)), w1)" by blast
  then have "retry_passes broken_env True c dir (Suc n) (p # rest) w
           = retry_passes broken_env True c dir n (q # qs) w1"
    by simp
  with Suc.IH show ?case by simp
qed

theorem retry_until_clean_pass_witness:
  "page_loop example_env False (''c1'', False) chapter_dir stale_pages chapter_world_started =
     (Inr (Some fresh_pages), chapter_world_retry)
   \<and> failed_pass (''c1'', False) chapter_dir stale_pages
        (drop 2 (trace chapter_world_retry))
   \<and> retry_passes example_env False (''c1'', False) chapter_dir 1 stale_pages
        chapter_world_started = Some (fresh_pages, chapter_world_retry)
   \<and> chapter_loop example_env False (''c1'', False) chapter_dir stale_pages
        chapter_world_started =
      chapter_loop example_env False (''c1'', False) chapter_dir fresh_pages chapter_world_retry
   \<and> chapter_loop example_env False (''c1'', False) chapter_dir stale_pages
        chapter_world_started = Some (Inr (), chapter_world_done)
   \<and> list_all2 (page_succeeded chapter_dir) fresh_pages (drop 5 (trace chapter_world_done))
   \<and> chapter_loop broken_env True (''c1'', False) chapter_dir stale_pages chapter_world_started
      = None"
proof -
  have pl: "page_loop example_env False (''c1'', False) chapter_dir stale_pages
      chapter_world_started = (Inr (Some fresh_pages), chapter_world_retry)"
    by code_simp
  have rp: "retry_passes example_env False (''c1'', False) chapter_dir 1 stale_pages
      chapter_world_started = Some (fresh_pages, chapter_world_retry)"
    by code_simp
  have fp: "failed_pass (''c1'', False) chapter_dir stale_pages
      (drop 2 (trace chapter_world_retry))"
    by code_simp
  have cl: "chapter_loop example_env False (''c1'', False) chapter_dir stale_pages
      chapter_world_started = Some (Inr (), chapter_world_done)"
    by code_simp
  have la: "list_all2 (page_succeeded chapter_dir) fresh_pages
      (drop 5 (trace chapter_world_done))"
    by code_simp
  have br: "\<forall>n. retry_passes broken_env True (''c1'', False) chapter_dir n stale_pages
      chapter_world_started \<noteq> None"
    by (simp add: stale_pages_def broken_env_always_fails)
  note t = retry_until_clean_pass [of example_env False "(''c1'', False)" chapter_dir
      stale_pages chapter_world_started]
  note b = retry_until_clean_pass [of broken_env True "(''c1'', False)" chapter_dir
      stale_pages chapter_world_started]
  from t pl rp have "chapter_loop example_env False (''c1'', False) chapter_dir stale_pages
        chapter_world_started =
      chapter_loop example_env False (''c1'', False) chapter_dir fresh_pages chapter_world_retry"
    by blast
  moreover from b br have "chapter_loop broken_env True (''c1'', False) chapter_dir stale_pages
      chapter_world_started = None"
    by blast
  ultimately show ?thesis using pl rp fp cl la by blast
qed






lemma fetch_rels_result: "fst (fetch_rels E rs d w) = fst (fetch_rels E rs d w')"
proof (induction rs arbitrary: d w w')
  case Nil
  then show ?case by simp
next
  case (Cons r rs)
  show ?case
    by (simp add: Cons.IH split: sum.splits)
qed

lemma fetch_result: "fst (fetch E u l w) = fst (fetch E u l w')"
proof (cases "parse_language E l")
  case (Inl e)
  then show ?thesis by (simp add: fetch_def)
next
  case lang: (Inr lang)
  show ?thesis
  proof (cases "validate_url E u")
    case (Inl e)
    with lang show ?thesis by (simp add: fetch_def)
  next
    case mid: (Inr mid)
    show ?thesis
    proof (cases "get_manga E mid")
      case (Inl e)
      with lang mid show ?thesis by (simp add: fetch_def)
    next
      case data: (Inr data)
      let ?d = "data\<lparr>md_authors := [], md_artists := []\<rparr>"
      obtain r1 w1 where a: "fetch_rels E (md_relationships data) ?d (net_call ''get_manga'' mid w) = (r1, w1)"
        by (cases "fetch_rels E (md_relationships data) ?d (net_call ''get_manga'' mid w)")
      obtain r2 w2 where b: "fetch_rels E (md_relationships data) ?d (net_call ''get_manga'' mid w') = (r2, w2)"
        by (cases "fetch_rels E (md_relationships data) ?d (net_call ''get_manga'' mid w')")
      have "r1 = r2"
        using fetch_rels_result [of E "md_relationships data" ?d "net_call ''get_manga'' mid w"
            "net_call ''get_manga'' mid w'"] a b by simp
      with lang mid data a b show ?thesis
        by (simp add: fetch_def split: sum.splits)
    qed
  qed
qed


lemma no_transfers_refl: "no_transfers w w"
  by (simp add: no_transfers_def)

lemma no_transfers_trans:
  assumes "no_transfers w w1" and "no_transfers w1 w2"
  shows "no_transfers w w2"
proof -
  from assms(1) obtain xs where xs: "trace w1 = trace w @ xs" "filter is_transfer xs = []"
    "fs w \<subseteq> fs w1"
    unfolding no_transfers_def by blast
  from assms(2) obtain ys where ys: "trace w2 = trace w1 @ ys" "filter is_transfer ys = []"
    "fs w1 \<subseteq> fs w2"
    unfolding no_transfers_def by blast
  have "trace w2 = trace w @ (xs @ ys)" "filter is_transfer (xs @ ys) = []" "fs w \<subseteq> fs w2"
    using xs ys by auto
  then show ?thesis unfolding no_transfers_def by blast
qed

lemma net_call_no_transfers: "no_transfers w (net_call f i w)"
  by (simp add: no_transfers_def net_call_def)

lemma fetch_rels_no_transfers:
  "fetch_rels E rs d w = (r, w1) \<Longrightarrow> no_transfers w w1"
proof (induction rs arbitrary: d w)
  case Nil
  then show ?case by (simp add: no_transfers_refl)
next
  case (Cons x rs)
  have step: "\<And>f i d'. fetch_rels E rs d' (net_call f i w) = (r, w1) \<Longrightarrow> no_transfers w w1"
    using no_transfers_trans [OF net_call_no_transfers Cons.IH] by blast
  from Cons.prems show ?case
    by (auto split: if_splits sum.splits intro: step net_call_no_transfers Cons.IH)
qed

lemma fetch_no_transfers:
  assumes "fetch E u l w = (r, w1)"
  shows "no_transfers w w1"
proof (cases "parse_language E l")
  case (Inl e)
  with assms show ?thesis by (simp add: fetch_def no_transfers_refl)
next
  case lang: (Inr lang)
  show ?thesis
  proof (cases "validate_url E u")
    case (Inl e)
    with lang assms show ?thesis by (simp add: fetch_def no_transfers_refl)
  next
    case mid: (Inr mid)
    show ?thesis
    proof (cases "get_manga E mid")
      case (Inl e)
      with lang mid assms show ?thesis by (auto simp: fetch_def net_call_no_transfers)
    next
      case data: (Inr data)
      let ?d = "data\<lparr>md_authors := [], md_artists := []\<rparr>"
      obtain r2 w2 where a: "fetch_rels E (md_relationships data) ?d (net_call ''get_manga'' mid w) = (r2, w2)"
        by (cases "fetch_rels E (md_relationships data) ?d (net_call ''get_manga'' mid w)")
      have n2: "no_transfers w w2"
        by (rule no_transfers_trans [OF net_call_no_transfers fetch_rels_no_transfers [OF a]])
      have "w1 = w2 \<or> (\<exists>f i. w1 = net_call f i w2)"
        using assms lang mid data a by (auto simp: fetch_def split: sum.splits)
      then show ?thesis
        using n2 no_transfers_trans [OF n2 net_call_no_transfers] by auto
    qed
  qed
qed

lemma images_fetch_no_transfers: "images_fetch E c w = (r, w') \<Longrightarrow> no_transfers w w'"
  by (auto simp: images_fetch_def no_transfers_def)

lemma chapter_start_no_transfers:
  "chapter_start E base vol chap c w = (r, w') \<Longrightarrow> no_transfers w w'"
  by (auto simp: chapter_start_def images_fetch_def emit_def no_transfers_def
        split: sum.splits if_splits)

lemma page_loop_present:
  assumes "\<forall>p\<in>set ps. dir @ [snd (snd p)] \<in> fs w"
  shows "\<exists>w'. page_loop E False c dir ps w = (Inr None, w') \<and> no_transfers w w'"
  using assms
proof (induction ps arbitrary: w)
  case Nil
  then show ?case by (simp add: no_transfers_refl)
next
  case (Cons p ps)
  obtain page u name where p: "p = (page, u, name)" by (cases p)
  let ?w1 = "emit (Skip (dir @ [name])) w"
  have pd: "page_download E u (dir @ [name]) False w = (True, ?w1)"
    using Cons.prems p by (simp add: page_download_def)
  have n1: "no_transfers w ?w1" by (simp add: no_transfers_def emit_def)
  have "\<forall>q\<in>set ps. dir @ [snd (snd q)] \<in> fs ?w1"
    using Cons.prems by (simp add: emit_def)
  from Cons.IH [OF this] obtain w' where
    "page_loop E False c dir ps ?w1 = (Inr None, w')" "no_transfers ?w1 w'" by blast
  then show ?case
    using pd p no_transfers_trans [OF n1] by auto
qed

lemma download_chapter_present:
  assumes "\<forall>t ps. chapter_pages E t c = Inr ps \<longrightarrow>
             (\<forall>p\<in>set ps. (base @ [chapter_folder vol chap]) @ [snd (snd p)] \<in> fs w)"
  shows "\<exists>r w'. download_chapter E False base vol chap c w = Some (r, w') \<and> no_transfers w w'"
proof -
  obtain r0 w0 where cs: "chapter_start E base vol chap c w = (r0, w0)"
    by (cases "chapter_start E base vol chap c w")
  note n0 = chapter_start_no_transfers [OF cs]
  show ?thesis
  proof (cases r0)
    case (Inl e)
    with cs n0 show ?thesis by (auto simp: download_chapter_def)
  next
    case (Inr ps)
    with chapter_start_facts(4) [OF cs] have "chapter_pages E (clock w) c = Inr ps" by simp
    with assms have "\<forall>p\<in>set ps. (base @ [chapter_folder vol chap]) @ [snd (snd p)] \<in> fs w"
      by blast
    moreover have "fs w \<subseteq> fs w0" using n0 by (auto simp: no_transfers_def)
    ultimately have "\<forall>p\<in>set ps. (base @ [chapter_folder vol chap]) @ [snd (snd p)] \<in> fs w0"
      by blast
    from page_loop_present [OF this] obtain w' where
      pl: "page_loop E False c (base @ [chapter_folder vol chap]) ps w0 = (Inr None, w')"
      and n1: "no_transfers w0 w'" by blast
    have "chapter_loop E False c (base @ [chapter_folder vol chap]) ps w0 = Some (Inr (), w')"
      by (subst chapter_loop.simps) (simp add: pl)
    with cs Inr no_transfers_trans [OF n0 n1] show ?thesis
      by (auto simp: download_chapter_def)
  qed
qed

lemma download_chapters_present:
  assumes "\<forall>(vol, chap, c)\<in>set items. \<forall>t ps. chapter_pages E t c = Inr ps \<longrightarrow>
             (\<forall>p\<in>set ps. (base @ [chapter_folder vol chap]) @ [snd (snd p)] \<in> fs w)"
  shows "\<exists>r w'. download_chapters E False base items w = Some (r, w') \<and> no_transfers w w'"
  using assms
proof (induction items arbitrary: w)
  case Nil
  then show ?case by (simp add: no_transfers_refl)
next
  case (Cons item items)
  obtain vol chap c where item: "item = (vol, chap, c)" by (cases item)
  from Cons.prems item have "\<forall>t ps. chapter_pages E t c = Inr ps \<longrightarrow>
             (\<forall>p\<in>set ps. (base @ [chapter_folder vol chap]) @ [snd (snd p)] \<in> fs w)"
    by auto
  from download_chapter_present [OF this] obtain r1 w1 where
    dc: "download_chapter E False base vol chap c w = Some (r1, w1)" and n1: "no_transfers w w1"
    by blast
  show ?case
  proof (cases r1)
    case (Inl e)
    with dc n1 item show ?thesis by auto
  next
    case (Inr u)
    have sub: "fs w \<subseteq> fs w1" using n1 by (auto simp: no_transfers_def)
    have "\<forall>(vol, chap, c)\<in>set items. \<forall>t ps. chapter_pages E t c = Inr ps \<longrightarrow>
             (\<forall>p\<in>set ps. (base @ [chapter_folder vol chap]) @ [snd (snd p)] \<in> fs w1)"
      using Cons.prems sub by fastforce
    from Cons.IH [OF this] obtain r w' where
      "download_chapters E False base items w1 = Some (r, w')" "no_transfers w1 w'" by blast
    with dc Inr item no_transfers_trans [OF n1] show ?thesis by auto
  qed
qed


lemma download_chapter_files:
  assumes "download_chapter E r base vol chap c w = Some (Inr u, w')"
  shows "fs w \<subseteq> fs w'
       \<and> (\<exists>t ps. chapter_pages E t c = Inr ps
             \<and> (\<forall>p\<in>set ps. (base @ [chapter_folder vol chap]) @ [snd (snd p)] \<in> fs w'))"
proof -
  let ?dir = "base @ [chapter_folder vol chap]"
  obtain r0 w0 where cs: "chapter_start E base vol chap c w = (r0, w0)"
    by (cases "chapter_start E base vol chap c w")
  from assms cs obtain ps0 where r0: "r0 = Inr ps0"
    and cl: "chapter_loop E r c ?dir ps0 w0 = Some (Inr u, w')"
    by (cases r0) (auto simp: download_chapter_def)
  have s0: "fs w \<subseteq> fs w0" using chapter_start_facts(1) [OF cs] by (auto simp: new_files_only_def)
  have p0: "chapter_pages E (clock w) c = Inr ps0" using chapter_start_facts(4) [OF cs] r0 by simp
  from chapter_loop_done [OF cl] obtain n ps' w'' where
    rp: "retry_passes E r c ?dir n ps0 w0 = Some (ps', w'')"
    and pl: "page_loop E r c ?dir ps' w'' = (Inr None, w')"
    by auto
  from retry_passes_counts [OF rp] have s1: "fs w0 \<subseteq> fs w''"
    and src: "n = 0 \<and> ps' = ps0 \<or> (\<exists>t. chapter_pages E t c = Inr ps')" by auto
  from page_loop_clean [OF pl] have s2: "fs w'' \<subseteq> fs w'"
    and files: "\<forall>p\<in>set ps'. ?dir @ [snd (snd p)] \<in> fs w'" by auto
  from src p0 have "\<exists>t. chapter_pages E t c = Inr ps'" by auto
  with files s0 s1 s2 show ?thesis by blast
qed

lemma download_chapter_fs:
  assumes "download_chapter E r base vol chap c w = Some (res, w')"
  shows "fs w \<subseteq> fs w'"
proof -
  let ?dir = "base @ [chapter_folder vol chap]"
  obtain r0 w0 where cs: "chapter_start E base vol chap c w = (r0, w0)"
    by (cases "chapter_start E base vol chap c w")
  have s0: "fs w \<subseteq> fs w0" using chapter_start_facts(1) [OF cs] by (auto simp: new_files_only_def)
  show ?thesis
  proof (cases r0)
    case (Inl e)
    with assms cs s0 show ?thesis by (auto simp: download_chapter_def)
  next
    case (Inr ps0)
    with assms cs have cl: "chapter_loop E r c ?dir ps0 w0 = Some (res, w')"
      by (simp add: download_chapter_def)
    from chapter_loop_done [OF cl] obtain n ps' w'' x where
      rp: "retry_passes E r c ?dir n ps0 w0 = Some (ps', w'')"
      and pl: "page_loop E r c ?dir ps' w'' = (x, w')"
      by (cases res; cases "fst (res, w')") (auto split: sum.splits)
    from retry_passes_counts [OF rp] have s1: "fs w0 \<subseteq> fs w''" by simp
    have s2: "fs w'' \<subseteq> fs w'"
    proof (cases "x = Inr None")
      case True
      with page_loop_clean [of E r c ?dir ps' w'' w'] pl show ?thesis by auto
    next
      case False
      from page_loop_failed [OF pl False] show ?thesis by auto
    qed
    from s0 s1 s2 show ?thesis by blast
  qed
qed

lemma download_chapters_files:
  assumes "download_chapters E r base items w = Some (Inr u, w')"
  shows "fs w \<subseteq> fs w'
       \<and> (\<forall>(vol, chap, c)\<in>set items. \<exists>t ps. chapter_pages E t c = Inr ps
             \<and> (\<forall>p\<in>set ps. (base @ [chapter_folder vol chap]) @ [snd (snd p)] \<in> fs w'))"
  using assms
proof (induction items arbitrary: w)
  case Nil
  then show ?case by simp
next
  case (Cons item items)
  obtain vol chap c where item: "item = (vol, chap, c)" by (cases item)
  from Cons.prems item obtain u1 w1 where
    dc: "download_chapter E r base vol chap c w = Some (Inr u1, w1)"
    and rest: "download_chapters E r base items w1 = Some (Inr u, w')"
    by (auto split: option.splits prod.splits sum.splits)
  from download_chapter_files [OF dc] obtain t ps where
    a: "fs w \<subseteq> fs w1" "chapter_pages E t c = Inr ps"
    "\<forall>p\<in>set ps. (base @ [chapter_folder vol chap]) @ [snd (snd p)] \<in> fs w1"
    by blast
  from Cons.IH [OF rest] have b: "fs w1 \<subseteq> fs w'"
    "\<forall>(vol, chap, c)\<in>set items. \<exists>t ps. chapter_pages E t c = Inr ps
        \<and> (\<forall>p\<in>set ps. (base @ [chapter_folder vol chap]) @ [snd (snd p)] \<in> fs w')"
    by auto
  have "\<exists>t ps. chapter_pages E t c = Inr ps
        \<and> (\<forall>p\<in>set ps. (base @ [chapter_folder vol chap]) @ [snd (snd p)] \<in> fs w')"
    using a b(1) by blast
  with a b item show ?case by auto
qed

lemma download_prepare_run:
  assumes "download_validate E a = None"
    and "fst (fetch E (arg_url a) (arg_language a) w) = Inr m"
    and "cover_url m (arg_cover a) = Inr cu"
  shows "\<exists>wp evs b. download_prepare E a w = (Inr (m, base_path_of E (arg_folder a) m), wp)
           \<and> trace wp = trace w @ evs \<and> fs w \<subseteq> fs wp
           \<and> filter is_transfer evs =
               [Transfer cu (base_path_of E (arg_folder a) m @ [''cover.jpg'']) b]"
proof -
  obtain w1 where f: "fetch E (arg_url a) (arg_language a) w = (Inr m, w1)"
    using assms(2) by (cases "fetch E (arg_url a) (arg_language a) w") auto
  from fetch_no_transfers [OF f] obtain xs where xs: "trace w1 = trace w @ xs"
    "filter is_transfer xs = []" "fs w \<subseteq> fs w1"
    unfolding no_transfers_def by blast
  let ?base = "base_path_of E (arg_folder a) m"
  let ?w2 = "mkdir_parents ?base w1"
  let ?w3 = "download_file E cu (?base @ [''cover.jpg'']) True ?w2"
  let ?w4 = "write_details (?base @ [''details.json'']) ?w3"
  have p: "download_prepare E a w = (Inr (m, ?base), ?w4)"
    by (simp add: download_prepare_def assms(1,3) f)
  have t2: "trace ?w2 = trace w1 @ [Mkdir ?base]" "fs w1 \<subseteq> fs ?w2"
    by (auto simp: mkdir_parents_def emit_def)
  obtain b where t3: "trace ?w3 = trace ?w2 @ [Transfer cu (?base @ [''cover.jpg'']) b]"
    "fs ?w2 \<subseteq> fs ?w3"
    by (cases "net_ok E (clock ?w2) cu") (auto simp: download_file_def page_download_def)
  have t4: "trace ?w4 = trace ?w3 @ [WriteFile (?base @ [''details.json''])]" "fs ?w3 \<subseteq> fs ?w4"
    by (auto simp: write_details_def emit_def)
  let ?evs = "xs @ [Mkdir ?base, Transfer cu (?base @ [''cover.jpg'']) b,
                    WriteFile (?base @ [''details.json''])]"
  have "trace ?w4 = trace w @ ?evs" using xs t2 t3 t4 by simp
  moreover have "filter is_transfer ?evs = [Transfer cu (?base @ [''cover.jpg'']) b]"
    using xs by simp
  moreover have "fs w \<subseteq> fs ?w4" using xs t2 t3 t4 by blast
  ultimately show ?thesis using p by blast
qed

lemma download_prepare_ok:
  assumes "download_prepare E a w = (Inr (m, base), wp)"
  shows "download_validate E a = None
       \<and> fst (fetch E (arg_url a) (arg_language a) w) = Inr m
       \<and> (\<exists>cu. cover_url m (arg_cover a) = Inr cu)
       \<and> base = base_path_of E (arg_folder a) m"
  using assms
  by (auto simp: download_prepare_def split: option.splits prod.splits sum.splits)


text \<open>
  Claim C2, as stated, fails: the second run of the example, with \<open>replace=False\<close>, skips
  both pages but transfers the cover again, since the cover is downloaded with
  \<open>replace=True\<close> (line 210).
\<close>

theorem second_run_counterexample:
  "arg_replace example_args = False
   \<and> download example_env example_args empty_world = Some (Inr example_manga, first_run_world)
   \<and> download example_env example_args first_run_world =
       Some (Inr example_manga, second_run_world)
   \<and> trace second_run_world = trace first_run_world @ second_run_events
   \<and> filter is_transfer second_run_events = [Transfer ''u/orig'' [''T'', ''cover.jpg''] True]"
  by code_simp

text \<open>
  Claim C2, amended. After a run of \<open>download\<close> that completed, a second run on the same
  target with \<open>replace=False\<close>, the upstream serving the same page file names, terminates
  and transfers no page again: every page download returns by the exists check, and the
  only transfer of the second run is the cover image, which is always downloaded again.
\<close>

theorem second_run_transfers_only_cover:
  assumes "arg_replace a = False"
    and "\<forall>t t' c ps ps'. chapter_pages E t c = Inr ps \<longrightarrow> chapter_pages E t' c = Inr ps' \<longrightarrow>
           map (\<lambda>p. snd (snd p)) ps = map (\<lambda>p. snd (snd p)) ps'"
    and "download E a w0 = Some (Inr m, w1)"
  shows "\<exists>r w2 evs cu b. download E a w1 = Some (r, w2) \<and> trace w2 = trace w1 @ evs
           \<and> cover_url m (arg_cover a) = Inr cu
           \<and> filter is_transfer evs =
               [Transfer cu (base_path_of E (arg_folder a) m @ [''cover.jpg'']) b]"
proof -
  let ?items = "iter_chapter_images E (chapters m) (arg_start_chapter a) (arg_end_chapter a)
                  (arg_no_oneshot_chapter a) (arg_compressed_image a)"
  let ?base = "base_path_of E (arg_folder a) m"
  obtain r0 wp where dp0: "download_prepare E a w0 = (r0, wp)"
    by (cases "download_prepare E a w0")
  from assms(3) dp0 obtain base where dp: "download_prepare E a w0 = (Inr (m, base), wp)"
    and dcs0: "download_chapters E (arg_replace a) base ?items wp \<noteq> None"
    by (cases r0) (auto simp: download_def split: option.splits prod.splits sum.splits)
  from download_prepare_ok [OF dp] obtain cu where ok: "download_validate E a = None"
    "fst (fetch E (arg_url a) (arg_language a) w0) = Inr m" "cover_url m (arg_cover a) = Inr cu"
    "base = ?base"
    by blast
  from assms(3) dp ok(4) assms(1) obtain u where
    dcs: "download_chapters E False ?base ?items wp = Some (Inr u, w1)"
    by (auto simp: download_def split: option.splits prod.splits sum.splits)
  have f1: "fst (fetch E (arg_url a) (arg_language a) w1) = Inr m"
    using ok(2) fetch_result [of E "arg_url a" "arg_language a" w1 w0] by simp
  from download_prepare_run [OF ok(1) f1 ok(3)] obtain wq xs b where
    dq: "download_prepare E a w1 = (Inr (m, ?base), wq)"
    and xs: "trace wq = trace w1 @ xs" "fs w1 \<subseteq> fs wq"
    "filter is_transfer xs = [Transfer cu (?base @ [''cover.jpg'']) b]"
    by blast
  from download_chapters_files [OF dcs] have files:
    "\<forall>(vol, chap, c)\<in>set ?items. \<exists>t ps. chapter_pages E t c = Inr ps
        \<and> (\<forall>p\<in>set ps. (?base @ [chapter_folder vol chap]) @ [snd (snd p)] \<in> fs w1)"
    by simp
  have present: "\<forall>(vol, chap, c)\<in>set ?items. \<forall>t ps. chapter_pages E t c = Inr ps \<longrightarrow>
      (\<forall>p\<in>set ps. (?base @ [chapter_folder vol chap]) @ [snd (snd p)] \<in> fs wq)"
  proof (intro ballI, clarify)
    fix vol chap c1 c2 t ps pg url name
    assume item: "(vol, chap, (c1, c2)) \<in> set ?items"
      and served: "chapter_pages E t (c1, c2) = Inr ps"
      and p: "(pg, url, name) \<in> set ps"
    from files item obtain t0 ps0 where ps0: "chapter_pages E t0 (c1, c2) = Inr ps0"
      "\<forall>p\<in>set ps0. (?base @ [chapter_folder vol chap]) @ [snd (snd p)] \<in> fs w1"
      by fastforce
    from assms(2) ps0(1) served
    have "map (\<lambda>p. snd (snd p)) ps0 = map (\<lambda>p. snd (snd p)) ps" by blast
    then have "set (map (\<lambda>p. snd (snd p)) ps0) = set (map (\<lambda>p. snd (snd p)) ps)" by simp
    then have eq: "(\<lambda>p. snd (snd p)) ` set ps0 = (\<lambda>p. snd (snd p)) ` set ps" by simp
    have "name \<in> (\<lambda>p. snd (snd p)) ` set ps" using p by force
    with eq have "name \<in> (\<lambda>p. snd (snd p)) ` set ps0" by simp
    then obtain q where "q \<in> set ps0" "name = snd (snd q)" by (rule imageE)
    with ps0(2) have "(?base @ [chapter_folder vol chap]) @ [name] \<in> fs w1" by auto
    with xs(2) show "(?base @ [chapter_folder vol chap]) @ [snd (snd (pg, url, name))] \<in> fs wq"
      by auto
  qed
  from download_chapters_present [OF present] obtain r2 w2 where
    d2: "download_chapters E False ?base ?items wq = Some (r2, w2)" and n2: "no_transfers wq w2"
    by blast
  from n2 obtain ys where ys: "trace w2 = trace wq @ ys" "filter is_transfer ys = []"
    unfolding no_transfers_def by blast
  have tr: "trace w2 = trace w1 @ (xs @ ys)" using xs ys by simp
  have ft: "filter is_transfer (xs @ ys) = [Transfer cu (?base @ [''cover.jpg'']) b]"
    using xs ys by simp
  have "\<exists>r. download E a w1 = Some (r, w2)"
    using dq d2 assms(1) by (cases r2) (auto simp: download_def)
  with tr ft ok(3) show ?thesis by blast
qed

theorem second_run_transfers_only_cover_witness:
  "arg_replace example_args = False
   \<and> download example_env example_args empty_world = Some (Inr example_manga, first_run_world)
   \<and> (\<exists>r w2 evs cu b. download example_env example_args first_run_world = Some (r, w2)
         \<and> trace w2 = trace first_run_world @ evs
         \<and> cover_url example_manga (arg_cover example_args) = Inr cu
         \<and> filter is_transfer evs =
             [Transfer cu (base_path_of example_env (arg_folder example_args) example_manga
                            @ [''cover.jpg'']) b])"
proof -
  have r: "arg_replace example_args = False" by code_simp
  have stable: "\<forall>t t' c ps ps'. chapter_pages example_env t c = Inr ps \<longrightarrow>
      chapter_pages example_env t' c = Inr ps' \<longrightarrow>
      map (\<lambda>p. snd (snd p)) ps = map (\<lambda>p. snd (snd p)) ps'"
    by (auto simp: example_env_def)
  have run1: "download example_env example_args empty_world =
      Some (Inr example_manga, first_run_world)"
    by code_simp
  from second_run_transfers_only_cover [OF r stable run1] r run1 show ?thesis by blast
qed


section \<open>Hard upstream errors and the cover\<close>

lemma fetch_get_manga_error:
  assumes "parse_language E l = Inr lang" and "validate_url E u = Inr mid"
    and "get_manga E mid = Inl e"
  shows "fetch E u l w = (Inl e, net_call ''get_manga'' mid w)"
  using assms by (simp add: fetch_def)

lemma fetch_get_all_chapters_error:
  assumes "parse_language E l = Inr lang" and "validate_url E u = Inr mid"
    and "get_manga E mid = Inr data"
    and "fetch_rels E (md_relationships data) (data\<lparr>md_authors := [], md_artists := []\<rparr>)
           (net_call ''get_manga'' mid w) = (Inr d1, w1)"
    and "get_all_chapters E (manga_id (Manga E d1)) lang = Inl e"
  shows "fetch E u l w = (Inl e, net_call ''get_all_chapters'' (manga_id (Manga E d1)) w1)"
  using assms by (simp add: fetch_def)

lemma fetch_error_download:
  assumes "download_validate E a = None"
    and "fetch E (arg_url a) (arg_language a) w = (Inl e, w1)"
  shows "download E a w = Some (Inl e, w1) \<and> fs w1 = fs w
       \<and> filter is_fs_output (trace w1) = filter is_fs_output (trace w)"
  using assms fetch_fs [OF assms(2)] fetch_fs_events [OF assms(2)]
  by (simp add: download_def download_prepare_def)

text \<open>
  Claim C6. When the manga cannot be found, or the selected language has no chapters,
  \<open>download\<close> raises; the files and directories are those it was called with, and no
  directory creation, file write or completed transfer has been added to the trace. With
  valid arguments the error is the typed error raised by \<open>fetch\<close>: \<open>InvalidManga\<close> or
  \<open>ChapterNotFound\<close>.
\<close>

theorem hard_upstream_error_before_output:
  assumes "parse_language E (arg_language a) = Inr lang"
    and "validate_url E (arg_url a) = Inr mid"
    and "get_manga E mid = Inl InvalidManga
         \<or> (\<exists>data d1 w1. get_manga E mid = Inr data
               \<and> fetch_rels E (md_relationships data) (data\<lparr>md_authors := [], md_artists := []\<rparr>)
                    (net_call ''get_manga'' mid w) = (Inr d1, w1)
               \<and> get_all_chapters E (manga_id (Manga E d1)) lang = Inl ChapterNotFound)"
  shows "\<exists>e w'. download E a w = Some (Inl e, w')
          \<and> fs w' = fs w
          \<and> filter is_fs_output (trace w') = filter is_fs_output (trace w)
          \<and> (download_validate E a = None \<longrightarrow>
                e = (if get_manga E mid = Inl InvalidManga then InvalidManga
                     else ChapterNotFound))"
proof (cases "download_validate E a")
  case (Some e)
  from validate_error_download [OF this] Some show ?thesis by auto
next
  case None
  show ?thesis
  proof (cases "get_manga E mid = Inl InvalidManga")
    case True
    from fetch_get_manga_error [OF assms(1,2) True]
    have "fetch E (arg_url a) (arg_language a) w =
        (Inl InvalidManga, net_call ''get_manga'' mid w)" .
    from fetch_error_download [OF None this] True show ?thesis by auto
  next
    case False
    with assms(3) obtain data d1 w1 where d: "get_manga E mid = Inr data"
      "fetch_rels E (md_relationships data) (data\<lparr>md_authors := [], md_artists := []\<rparr>)
         (net_call ''get_manga'' mid w) = (Inr d1, w1)"
      "get_all_chapters E (manga_id (Manga E d1)) lang = Inl ChapterNotFound"
      by blast
    from fetch_get_all_chapters_error [OF assms(1,2) d]
    have "fetch E (arg_url a) (arg_language a) w =
        (Inl ChapterNotFound, net_call ''get_all_chapters'' (manga_id (Manga E d1)) w1)" .
    from fetch_error_download [OF None this] False show ?thesis by auto
  qed
qed

theorem hard_upstream_error_before_output_witness:
  "download_validate example_env no_chapters_args = None
   \<and> get_all_chapters example_env ''m1'' ''fr'' = Inl ChapterNotFound
   \<and> (\<exists>w'. download example_env no_chapters_args empty_world = Some (Inl ChapterNotFound, w')
         \<and> fs w' = fs empty_world
         \<and> filter is_fs_output (trace w') = filter is_fs_output (trace empty_world))
   \<and> download_validate unknown_manga_env unknown_manga_args = None
   \<and> get_manga unknown_manga_env ''m2'' = Inl InvalidManga
   \<and> (\<exists>w'. download unknown_manga_env unknown_manga_args empty_world =
              Some (Inl InvalidManga, w')
         \<and> fs w' = fs empty_world
         \<and> filter is_fs_output (trace w') = filter is_fs_output (trace empty_world))"
proof -
  have v1: "download_validate example_env no_chapters_args = None" by code_simp
  have l1: "parse_language example_env (arg_language no_chapters_args) = Inr ''fr''" by code_simp
  have u1: "validate_url example_env (arg_url no_chapters_args) = Inr ''m1''" by code_simp
  have g1: "get_manga example_env ''m1'' \<noteq> Inl InvalidManga" by code_simp
  have c1: "get_all_chapters example_env ''m1'' ''fr'' = Inl ChapterNotFound" by code_simp
  have h1: "\<exists>data d1 w1. get_manga example_env ''m1'' = Inr data
      \<and> fetch_rels example_env (md_relationships data) (data\<lparr>md_authors := [], md_artists := []\<rparr>)
           (net_call ''get_manga'' ''m1'' empty_world) = (Inr d1, w1)
      \<and> get_all_chapters example_env (manga_id (Manga example_env d1)) ''fr'' = Inl ChapterNotFound"
    by (simp add: example_env_def)
  have v2: "download_validate unknown_manga_env unknown_manga_args = None" by code_simp
  have l2: "parse_language unknown_manga_env (arg_language unknown_manga_args) = Inr ''en''"
    by code_simp
  have u2: "validate_url unknown_manga_env (arg_url unknown_manga_args) = Inr ''m2''" by code_simp
  have g2: "get_manga unknown_manga_env ''m2'' = Inl InvalidManga" by code_simp
  from hard_upstream_error_before_output [OF l1 u1, of empty_world] h1 g1 v1
  have a: "\<exists>w'. download example_env no_chapters_args empty_world = Some (Inl ChapterNotFound, w')
         \<and> fs w' = fs empty_world
         \<and> filter is_fs_output (trace w') = filter is_fs_output (trace empty_world)"
    by auto
  from hard_upstream_error_before_output [OF l2 u2, of empty_world] g2 v2
  have b: "\<exists>w'. download unknown_manga_env unknown_manga_args empty_world =
              Some (Inl InvalidManga, w')
         \<and> fs w' = fs empty_world
         \<and> filter is_fs_output (trace w') = filter is_fs_output (trace empty_world)"
    by auto
  from a b v1 c1 v2 g2 show ?thesis by blast
qed


lemma retry_passes_trace:
  "retry_passes E r c dir n ps w = Some (ps', w') \<Longrightarrow> \<exists>evs. trace w' = trace w @ evs"
proof (induction n arbitrary: ps w)
  case 0
  then show ?case by simp
next
  case (Suc n)
  then obtain ps1 w1 where pl: "page_loop E r c dir ps w = (Inr (Some ps1), w1)"
    and rest: "retry_passes E r c dir n ps1 w1 = Some (ps', w')"
    by (auto split: prod.splits sum.splits option.splits)
  from page_loop_failed [OF pl] obtain xs where "trace w1 = trace w @ xs" by auto
  moreover from Suc.IH [OF rest] obtain ys where "trace w' = trace w1 @ ys" by auto
  ultimately have "trace w' = trace w @ (xs @ ys)" by simp
  then show ?case by blast
qed

lemma page_loop_trace:
  assumes "page_loop E r c dir ps w = (x, w')"
  shows "\<exists>evs. trace w' = trace w @ evs"
proof (cases "x = Inr None")
  case True
  with page_loop_clean [of E r c dir ps w w'] assms show ?thesis by auto
next
  case False
  from page_loop_failed [OF assms False] show ?thesis by auto
qed

lemma download_chapter_trace:
  assumes "download_chapter E r base vol chap c w = Some (res, w')"
  shows "\<exists>evs. trace w' = trace w @ evs"
proof -
  let ?dir = "base @ [chapter_folder vol chap]"
  obtain r0 w0 where cs: "chapter_start E base vol chap c w = (r0, w0)"
    by (cases "chapter_start E base vol chap c w")
  from chapter_start_no_transfers [OF cs] obtain xs where xs: "trace w0 = trace w @ xs"
    unfolding no_transfers_def by blast
  show ?thesis
  proof (cases r0)
    case (Inl e)
    with assms cs xs show ?thesis by (auto simp: download_chapter_def)
  next
    case (Inr ps0)
    with assms cs have cl: "chapter_loop E r c ?dir ps0 w0 = Some (res, w')"
      by (simp add: download_chapter_def)
    from chapter_loop_done [OF cl] obtain n ps' w'' x where
      rp: "retry_passes E r c ?dir n ps0 w0 = Some (ps', w'')"
      and pl: "page_loop E r c ?dir ps' w'' = (x, w')"
      by (cases res) (auto split: sum.splits)
    from retry_passes_trace [OF rp] obtain ys where ys: "trace w'' = trace w0 @ ys" by blast
    from page_loop_trace [OF pl] obtain zs where zs: "trace w' = trace w'' @ zs" by blast
    have "trace w' = trace w @ (xs @ ys @ zs)" using xs ys zs by simp
    then show ?thesis by blast
  qed
qed

lemma download_chapters_trace:
  "download_chapters E r base items w = Some (res, w') \<Longrightarrow> \<exists>evs. trace w' = trace w @ evs"
proof (induction items arbitrary: w)
  case Nil
  then show ?case by simp
next
  case (Cons item items)
  obtain vol chap c where item: "item = (vol, chap, c)" by (cases item)
  from Cons.prems item obtain r1 w1 where
    dc: "download_chapter E r base vol chap c w = Some (r1, w1)"
    by (auto split: option.splits)
  from download_chapter_trace [OF dc] obtain xs where xs: "trace w1 = trace w @ xs" by blast
  show ?case
  proof (cases r1)
    case (Inl e)
    with Cons.prems item dc xs show ?thesis by auto
  next
    case (Inr u)
    with Cons.prems item dc have "download_chapters E r base items w1 = Some (res, w')" by simp
    from Cons.IH [OF this] obtain ys where "trace w' = trace w1 @ ys" by blast
    with xs have "trace w' = trace w @ (xs @ ys)" by simp
    then show ?thesis by blast
  qed
qed

text \<open>
  Claim C9. With valid arguments and a manga fetched, the cover value \<open>"512px"\<close> makes
  \<open>manga.cover_art_512px\<close> the source URL of the cover download, \<open>"256px"\<close> selects
  \<open>manga.cover_art_256px\<close> and \<open>"original"\<close> selects \<open>manga.cover_art\<close>: the events after the
  fetch are the creation of the folder, the transfer of that URL to \<open>cover.jpg\<close> and the
  writing of \<open>details.json\<close>, and every completed run of \<open>download\<close> goes on from there.
  Each selection reads its own field only.
\<close>

theorem cover_type_selects_url:
  assumes "download_validate E a = None"
    and "fetch E (arg_url a) (arg_language a) w = (Inr m, w1)"
  shows "(\<forall>sel. (arg_cover a = ''original'' \<and> sel = cover_art m
                 \<or> arg_cover a = ''512px'' \<and> sel = cover_art_512px m
                 \<or> arg_cover a = ''256px'' \<and> sel = cover_art_256px m) \<longrightarrow>
            (\<exists>wp. download_prepare E a w = (Inr (m, base_path_of E (arg_folder a) m), wp)
               \<and> trace wp = trace w1 @
                    [Mkdir (base_path_of E (arg_folder a) m),
                     Transfer sel (base_path_of E (arg_folder a) m @ [''cover.jpg''])
                       (net_ok E (clock w1) sel),
                     WriteFile (base_path_of E (arg_folder a) m @ [''details.json''])]
               \<and> (\<forall>r w'. download E a w = Some (r, w') \<longrightarrow>
                     (\<exists>rest. trace w' = trace wp @ rest))))
       \<and> cover_url (m\<lparr>cover_art := x, cover_art_256px := y\<rparr>) ''512px'' = Inr (cover_art_512px m)
       \<and> cover_url (m\<lparr>cover_art := x, cover_art_512px := y\<rparr>) ''256px'' = Inr (cover_art_256px m)
       \<and> cover_url (m\<lparr>cover_art_512px := x, cover_art_256px := y\<rparr>) ''original'' = Inr (cover_art m)"
proof (intro conjI allI impI)
  fix sel
  assume sel: "arg_cover a = ''original'' \<and> sel = cover_art m
                 \<or> arg_cover a = ''512px'' \<and> sel = cover_art_512px m
                 \<or> arg_cover a = ''256px'' \<and> sel = cover_art_256px m"
  let ?base = "base_path_of E (arg_folder a) m"
  have cu: "cover_url m (arg_cover a) = Inr sel"
    using sel by (auto simp: cover_url_def)
  let ?wp = "write_details (?base @ [''details.json''])
              (download_file E sel (?base @ [''cover.jpg'']) True (mkdir_parents ?base w1))"
  have dp: "download_prepare E a w = (Inr (m, ?base), ?wp)"
    by (simp add: download_prepare_def assms cu)
  have tr: "trace ?wp = trace w1 @
      [Mkdir ?base, Transfer sel (?base @ [''cover.jpg'']) (net_ok E (clock w1) sel),
       WriteFile (?base @ [''details.json''])]"
    by (simp add: write_details_def download_file_def page_download_def mkdir_parents_def
          emit_def)
  have "\<forall>r w'. download E a w = Some (r, w') \<longrightarrow> (\<exists>rest. trace w' = trace ?wp @ rest)"
  proof (intro allI impI)
    fix r w'
    assume d: "download E a w = Some (r, w')"
    then obtain r2 where "download_chapters E (arg_replace a) ?base
        (iter_chapter_images E (chapters m) (arg_start_chapter a) (arg_end_chapter a)
           (arg_no_oneshot_chapter a) (arg_compressed_image a)) ?wp = Some (r2, w')"
      unfolding download_def dp
      by (auto split: option.splits prod.splits sum.splits)
    from download_chapters_trace [OF this] show "\<exists>rest. trace w' = trace ?wp @ rest" .
  qed
  with dp tr show "\<exists>wp. download_prepare E a w = (Inr (m, ?base), wp)
               \<and> trace wp = trace w1 @
                    [Mkdir ?base, Transfer sel (?base @ [''cover.jpg'']) (net_ok E (clock w1) sel),
                     WriteFile (?base @ [''details.json''])]
               \<and> (\<forall>r w'. download E a w = Some (r, w') \<longrightarrow>
                     (\<exists>rest. trace w' = trace wp @ rest))"
    by blast
qed (simp_all add: cover_url_def)


theorem cover_type_selects_url_witness:
  "download_validate example_env cover_512_args = None
   \<and> fetch example_env (arg_url cover_512_args) (arg_language cover_512_args) empty_world =
       (Inr example_manga, fetched_world)
   \<and> arg_cover cover_512_args = ''512px''
   \<and> (\<exists>wp. download_prepare example_env cover_512_args empty_world =
              (Inr (example_manga, [''T'']), wp)
         \<and> trace wp = trace fetched_world @
              [Mkdir [''T''], Transfer ''u/512'' [''T'', ''cover.jpg''] True,
               WriteFile [''T'', ''details.json'']])"
proof -
  have v: "download_validate example_env cover_512_args = None" by code_simp
  have f: "fetch example_env (arg_url cover_512_args) (arg_language cover_512_args) empty_world =
       (Inr example_manga, fetched_world)"
    by code_simp
  have c: "arg_cover cover_512_args = ''512px''" by code_simp
  have b: "base_path_of example_env (arg_folder cover_512_args) example_manga = [''T'']"
    by code_simp
  have s: "cover_art_512px example_manga = ''u/512''" by code_simp
  have n: "net_ok example_env (clock fetched_world) ''u/512'' = True" by code_simp
  from cover_type_selects_url [OF v f] c
  have "\<exists>wp. download_prepare example_env cover_512_args empty_world =
            (Inr (example_manga, base_path_of example_env (arg_folder cover_512_args) example_manga), wp)
         \<and> trace wp = trace fetched_world @
              [Mkdir (base_path_of example_env (arg_folder cover_512_args) example_manga),
               Transfer (cover_art_512px example_manga)
                 (base_path_of example_env (arg_folder cover_512_args) example_manga @ [''cover.jpg''])
                 (net_ok example_env (clock fetched_world) (cover_art_512px example_manga)),
               WriteFile (base_path_of example_env (arg_folder cover_512_args) example_manga
                            @ [''details.json''])]"
    by blast
  then have "\<exists>wp. download_prepare example_env cover_512_args empty_world =
              (Inr (example_manga, [''T'']), wp)
         \<and> trace wp = trace fetched_world @
              [Mkdir [''T''], Transfer ''u/512'' [''T'', ''cover.jpg''] True,
               WriteFile [''T'', ''details.json'']]"
    unfolding b s n by simp
  with v f c show ?thesis by blast
qed

section \<open>The command line\<close>

text \<open>
  Claim C8. Once the arguments are parsed and logging is set up, \<open>_main\<close> returns 1 when both
  bounds are given and \<open>start_chapter > end_chapter\<close>, having only logged the error: no proxy
  setup, login or download has happened. When the check passes and every later step
  returns, \<open>_main\<close> returns 0 after running them all in order.
\<close>

theorem cli_exit_codes:
  assumes "register_keyboardinterrupt_handler C = None"
    and "get_args C argv = Inr args"
    and "setup_logging C args = None"
  shows "(cli_start_chapter args \<noteq> PNone \<and> cli_end_chapter args \<noteq> PNone
          \<and> py_gt (cli_start_chapter args) (cli_end_chapter args) = Inr True \<longrightarrow>
            cli_main C argv =
              (Inr 1, [RegisterKeyboardInterruptHandler, GetArgs, SetupLogging,
                       LogError ''--start-chapter cannot be more than --end-chapter'']))
       \<and> ((cli_start_chapter args = PNone \<or> cli_end_chapter args = PNone
            \<or> py_gt (cli_start_chapter args) (cli_end_chapter args) = Inr False)
          \<and> setup_proxy C args = None \<and> login_with_err_handler C args = None
          \<and> cli_download C args = None \<and> logout_with_err_handler C args = None
          \<and> check_update C = None \<and> close_network_object C = None \<longrightarrow>
            cli_main C argv =
              (Inr 0, [RegisterKeyboardInterruptHandler, GetArgs, SetupLogging, SetupProxy,
                       Login, Download, Logout, CheckUpdate, CloseNetworkObject]))"
  using assms by (auto simp: cli_main_def call_def)

theorem cli_exit_codes_witness:
  "register_keyboardinterrupt_handler example_cli_env = None
   \<and> get_args example_cli_env [''--start-chapter'', ''5'', ''--end-chapter'', ''1''] =
       Inr reversed_cli_args
   \<and> py_gt (cli_start_chapter reversed_cli_args) (cli_end_chapter reversed_cli_args) = Inr True
   \<and> cli_main example_cli_env [''--start-chapter'', ''5'', ''--end-chapter'', ''1''] =
       (Inr 1, [RegisterKeyboardInterruptHandler, GetArgs, SetupLogging,
                LogError ''--start-chapter cannot be more than --end-chapter''])
   \<and> get_args example_cli_env [] = Inr ordered_cli_args
   \<and> py_gt (cli_start_chapter ordered_cli_args) (cli_end_chapter ordered_cli_args) = Inr False
   \<and> cli_main example_cli_env [] =
       (Inr 0, [RegisterKeyboardInterruptHandler, GetArgs, SetupLogging, SetupProxy,
                Login, Download, Logout, CheckUpdate, CloseNetworkObject])"
  using cli_exit_codes [of example_cli_env "[''--start-chapter'', ''5'', ''--end-chapter'', ''1'']"
      reversed_cli_args]
    cli_exit_codes [of example_cli_env "[]" ordered_cli_args]
  by (simp add: example_cli_env_def reversed_cli_args_def ordered_cli_args_def)


section \<open>The background worker\<close>

lemma queued_jobs_append: "queued_jobs (q @ r) = queued_jobs q @ queued_jobs r"
  by (induction q rule: queued_jobs.induct) auto

lemma worker_inv_init: "worker_inv job worker_init"
  by (simp add: worker_inv_def worker_init_def)

lemma worker_inv_step:
  assumes "worker_inv job s" and "step job s s'"
  shows "worker_inv job s'"
  using assms(2)
proof cases
  case (step_put j)
  with assms(1) show ?thesis
    by (auto simp: worker_inv_def submit_put_def queued_jobs_append)
next
  case (step_wait j)
  with assms(1) show ?thesis
    by (auto simp: worker_inv_def submit_wait_def split: if_splits)
next
  case step_shutdown
  with assms(1) show ?thesis
    by (auto simp: worker_inv_def shutdown_main_def queued_jobs_append)
next
  case step_get
  show ?thesis
  proof (cases "queue s")
    case Nil
    with step_get show ?thesis by (simp add: worker_get_def split: if_splits)
  next
    case (Cons i q)
    show ?thesis
    proof (cases i)
      case (Job j)
      with step_get Cons have s': "s' = s\<lparr>queue := q, pc := Running j, started := started s @ [j]\<rparr>"
        and at: "pc s = AtGet"
        by (auto simp: worker_get_def split: if_splits)
      have qs: "queued_jobs (queue s) = j # queued_jobs q" using Cons Job by simp
      from assms(1) have inv: "returned s \<subseteq> events_set s" "events_set s \<subseteq> set (started s)"
        "\<forall>j\<in>events_set s. job j \<noteq> RaisesBaseException"
        "submitted s = started s @ queued_jobs (queue s)" "distinct (submitted s)"
        "logged s = []"
        by (auto simp: worker_inv_def)
      from inv(4,5) qs have new: "j \<notin> set (started s)" by auto
      with inv(2) have "j \<notin> events_set s" by blast
      moreover have "submitted s = (started s @ [j]) @ queued_jobs q" using inv(4) qs by simp
      ultimately show ?thesis
        unfolding worker_inv_def s' using inv by simp blast
    next
      case Stop
      with step_get Cons assms(1) show ?thesis
        by (auto simp: worker_inv_def worker_get_def split: if_splits)
    qed
  qed
next
  case step_run
  then obtain j where r: "pc s = Running j" by (cases "pc s") (auto simp: worker_run_def)
  with assms(1) have "started s \<noteq> []" "last (started s) = j" by (auto simp: worker_inv_def)
  then have "j \<in> set (started s)" by (metis last_in_set)
  with step_run r assms(1) show ?thesis
    by (cases "job j") (auto simp: worker_inv_def worker_run_def)
qed

lemma reachable_inv: "reachable job s \<Longrightarrow> worker_inv job s"
  by (induction rule: reachable.induct) (auto intro: worker_inv_init worker_inv_step)


text \<open>
  Claim C7, as stated, fails: a job that raises is not logged. The \<open>except Exception\<close> branch
  of \<open>_main\<close> is \<open>pass\<close>: after the job has raised, the event is set, the worker is back at
  \<open>queue.get()\<close>, and nothing has been logged.
\<close>

theorem worker_exception_logged_counterexample:
  "pc worker_in_job = Running 0
   \<and> raising_job 0 = RaisesException
   \<and> worker_run raising_job worker_in_job = Some worker_after_job
   \<and> logged worker_after_job = []"
  by code_simp

text \<open>
  Claim C7, amended. In every state the submitters, the watchdog and the worker can reach:
  a \<open>submit\<close> has returned only if its event is set, an event is set only for a job the
  worker has started, and never for the job it is running (so \<open>submit\<close> blocks until its
  job has finished); the jobs started are a prefix of the jobs submitted, in submission
  order, followed by those waiting in the queue; nothing is logged; and a running job that
  raises an \<open>Exception\<close> leaves the worker at \<open>queue.get()\<close> with the job's event set, so that
  the submitter's wait returns: the exception is swallowed silently.
\<close>

theorem worker_runs_jobs_in_order:
  assumes "reachable job s"
  shows "returned s \<subseteq> events_set s \<and> events_set s \<subseteq> set (started s)
       \<and> (\<forall>j. pc s = Running j \<longrightarrow> j \<notin> events_set s)
       \<and> submitted s = started s @ queued_jobs (queue s)
       \<and> logged s = []
       \<and> (\<forall>j. pc s = Running j \<and> job j = RaisesException \<longrightarrow>
             worker_run job s = Some (s\<lparr>pc := AtGet, events_set := insert j (events_set s)\<rparr>)
             \<and> j \<in> set (submitted s)
             \<and> submit_wait j (s\<lparr>pc := AtGet, events_set := insert j (events_set s)\<rparr>) \<noteq> None)"
proof -
  from reachable_inv [OF assms] have inv: "returned s \<subseteq> events_set s"
    "events_set s \<subseteq> set (started s)"
    "\<forall>j. pc s = Running j \<longrightarrow> j \<notin> events_set s \<and> started s \<noteq> [] \<and> last (started s) = j"
    "submitted s = started s @ queued_jobs (queue s)" "logged s = []"
    by (auto simp: worker_inv_def)
  have "\<forall>j. pc s = Running j \<and> job j = RaisesException \<longrightarrow>
             worker_run job s = Some (s\<lparr>pc := AtGet, events_set := insert j (events_set s)\<rparr>)
             \<and> j \<in> set (submitted s)
             \<and> submit_wait j (s\<lparr>pc := AtGet, events_set := insert j (events_set s)\<rparr>) \<noteq> None"
  proof (intro allI impI)
    fix j
    assume r: "pc s = Running j \<and> job j = RaisesException"
    with inv(3) have "started s \<noteq> []" "last (started s) = j" by auto
    then have "j \<in> set (started s)" by (metis last_in_set)
    with inv(4) have "j \<in> set (submitted s)" by simp
    with r show "worker_run job s = Some (s\<lparr>pc := AtGet, events_set := insert j (events_set s)\<rparr>)
             \<and> j \<in> set (submitted s)
             \<and> submit_wait j (s\<lparr>pc := AtGet, events_set := insert j (events_set s)\<rparr>) \<noteq> None"
      by (simp add: worker_run_def submit_wait_def)
  qed
  with inv show ?thesis by blast
qed

theorem worker_runs_jobs_in_order_witness:
  "reachable raising_job worker_in_job
   \<and> pc worker_in_job = Running 0
   \<and> raising_job 0 = RaisesException
   \<and> worker_run raising_job worker_in_job = Some worker_after_job
   \<and> submit_wait 0 worker_after_job \<noteq> None
   \<and> returned worker_in_job \<subseteq> events_set worker_in_job
   \<and> 0 \<notin> events_set worker_in_job
   \<and> logged worker_in_job = []"
proof -
  have p: "0 \<notin> set (submitted worker_init)" by (simp add: worker_init_def)
  have r1: "reachable raising_job (submit_put 0 worker_init)"
    by (rule reach_step [OF reach_init step_put [OF p]])
  have g: "worker_get (submit_put 0 worker_init) = Some worker_in_job"
    by (simp add: worker_get_def submit_put_def worker_init_def worker_in_job_def)
  have r2: "reachable raising_job worker_in_job"
    by (rule reach_step [OF r1 step_get [OF g]])
  have pc: "pc worker_in_job = Running 0" by (simp add: worker_in_job_def)
  have ex: "raising_job 0 = RaisesException" by (simp add: raising_job_def)
  have eq: "worker_in_job\<lparr>pc := AtGet, events_set := insert 0 (events_set worker_in_job)\<rparr>
      = worker_after_job"
    by (simp add: worker_in_job_def worker_after_job_def)
  from worker_runs_jobs_in_order [OF r2] pc ex
  have "returned worker_in_job \<subseteq> events_set worker_in_job"
    "0 \<notin> events_set worker_in_job" "logged worker_in_job = []"
    "worker_run raising_job worker_in_job =
       Some (worker_in_job\<lparr>pc := AtGet, events_set := insert 0 (events_set worker_in_job)\<rparr>)"
    "submit_wait 0 (worker_in_job\<lparr>pc := AtGet, events_set := insert 0 (events_set worker_in_job)\<rparr>)
       \<noteq> None"
    by blast+
  with r2 pc ex show ?thesis unfolding eq by blast
qed

end
